theory Spec2Isabelle
  imports Main "HOL-Library.AList"
begin

section \<open>Data model of the server (\<open>src/server/src/index.ts\<close>)\<close>

text \<open>
  Socket ids, user ids and user names are strings.  The identifiers drawn from
  \<open>crypto.randomUUID()\<close> (challenge ids, game ids, message ids) are modelled as
  natural numbers handed out by a counter kept in the state, so that two calls never
  return the same identifier.  Time stamps are strings supplied by the environment.
\<close>

type_synonym sid = string
type_synonym uid = string
type_synonym uuid = nat

datatype color = Red | Yellow

text \<open>
  A board cell is \<open>string | null\<close>; the only strings ever written are the two turn
  colours, so a cell is \<open>None\<close> (for \<open>null\<close>) or \<open>Some colour\<close>.  A board is an array
  of rows.
\<close>

type_synonym cell = "color option"
type_synonym board = "cell list list"
type_synonym cells = "(int \<times> int) list"

text \<open>\<open>game.winner\<close> is \<open>null\<close>, a colour, or the string \<open>"draw"\<close>.\<close>

datatype outcome = Won color | Draw

record OnlineUser =
  socketId :: sid
  userId :: uid
  username :: string

record Challenge =
  challenge_id :: uuid
  from_socket :: sid
  fromUsername :: string
  fromUserId :: uid
  to_socket :: sid
  toUsername :: string
  toUserId :: uid
  timeout :: uuid

record Players =
  red :: OnlineUser
  yellow :: OnlineUser

record GameData =
  game_id :: uuid
  board :: board
  currentTurn :: color
  players :: Players
  winner :: "outcome option"
  winningCells :: "cells option"

record LobbyMessage =
  msg_id :: uuid
  msg_userId :: uid
  msg_username :: string
  msg_text :: string
  msg_ts :: string
  msg_system :: "bool option"

section \<open>Board engine\<close>

text \<open>
  Reading a JavaScript array at an index that is not one of its positions gives
  \<open>undefined\<close>; both readers return \<open>None\<close> there.  For a cell, \<open>Some None\<close> is the
  value \<open>null\<close>.
\<close>

definition row_of :: "board \<Rightarrow> int \<Rightarrow> cell list option" where
  "row_of b r = (if 0 \<le> r \<and> r < int (length b) then Some (b ! nat r) else None)"

definition cell_of :: "cell list \<Rightarrow> int \<Rightarrow> cell option" where
  "cell_of rw c = (if 0 \<le> c \<and> c < int (length rw) then Some (rw ! nat c) else None)"

definition createEmptyBoard :: board where
  "createEmptyBoard = replicate 6 (replicate 7 None)"

text \<open>
  The two \<open>while\<close> statements of \<open>checkWinner\<close>: starting at \<open>(r, c)\<close>, push every cell that
  lies on the 6 by 7 grid and holds \<open>player\<close>, stepping by \<open>d\<close>, until one does not.
  The loop is written as the source has it; that it ends is proved below.
\<close>

partial_function (option) scan ::
  "board \<Rightarrow> color \<Rightarrow> int \<times> int \<Rightarrow> int \<Rightarrow> int \<Rightarrow> cells \<Rightarrow> cells option" where
  "scan b player d r c acc =
     (if r \<ge> 0 \<and> r < 6 \<and> c \<ge> 0 \<and> c < 7 then
        (case row_of b r of
           None \<Rightarrow> Some acc
         | Some checkRow \<Rightarrow>
             if cell_of checkRow c \<noteq> Some (Some player) then Some acc
             else scan b player d (r + fst d) (c + snd d) (acc @ [(r, c)]))
      else Some acc)"

definition directions :: "((int \<times> int) \<times> (int \<times> int)) list" where
  "directions =
     [((0, 1), (0, -1)),
      ((1, 0), (-1, 0)),
      ((1, 1), (-1, -1)),
      ((1, -1), (-1, 1))]"

text \<open>The \<open>for\<close> loop over the direction pairs, returning at the first run of four.\<close>

fun checkDirections ::
  "board \<Rightarrow> color \<Rightarrow> int \<Rightarrow> int \<Rightarrow> ((int \<times> int) \<times> (int \<times> int)) list
     \<Rightarrow> (color option \<times> cells option) option" where
  "checkDirections b player row col [] = Some (None, None)"
| "checkDirections b player row col (direction # rest) =
     (let dir1 = fst direction; dir2 = snd direction in
      case scan b player dir1 (row + fst dir1) (col + snd dir1) [(row, col)] of
        None \<Rightarrow> None
      | Some cells1 \<Rightarrow>
          (case scan b player dir2 (row + fst dir2) (col + snd dir2) cells1 of
             None \<Rightarrow> None
           | Some cells2 \<Rightarrow>
               if length cells2 \<ge> 4 then Some (Some player, Some cells2)
               else checkDirections b player row col rest))"

text \<open>
  \<open>checkWinner\<close> returns the pair \<open>{winner, cells}\<close>; the outer \<open>None\<close> stands for a
  call that does not return.
\<close>

definition checkWinner :: "board \<Rightarrow> int \<Rightarrow> int \<Rightarrow> (color option \<times> cells option) option" where
  "checkWinner b row col =
     (case row_of b row of
        None \<Rightarrow> Some (None, None)
      | Some currentRow \<Rightarrow>
          (case cell_of currentRow col of
             None \<Rightarrow> Some (None, None)
           | Some None \<Rightarrow> Some (None, None)
           | Some (Some player) \<Rightarrow> checkDirections b player row col directions))"

definition isBoardFull :: "board \<Rightarrow> bool" where
  "isBoardFull b =
     (case row_of b 0 of
        None \<Rightarrow> False
      | Some topRow \<Rightarrow> list_all (\<lambda>cell. cell \<noteq> None) topRow)"

text \<open>
  The drop loop of the \<open>makeMove\<close> handler: \<open>row\<close> starts at \<open>-1\<close>, and \<open>r\<close> runs over
  the given rows (5 down to 0 in the handler) until a row whose cell in \<open>col\<close> is
  \<open>null\<close>.
\<close>

fun findRow :: "board \<Rightarrow> int \<Rightarrow> int list \<Rightarrow> int" where
  "findRow b col [] = -1"
| "findRow b col (r # rs) =
     (case row_of b r of
        None \<Rightarrow> findRow b col rs
      | Some rowData \<Rightarrow>
          if cell_of rowData col = Some None then r else findRow b col rs)"

definition dropRows :: "int list" where
  "dropRows = [5, 4, 3, 2, 1, 0]"

text \<open>
  The assignment \<open>targetRow[col] = playerColor\<close>, guarded by \<open>if (targetRow)\<close>.  The
  handler reaches it only with a \<open>row\<close> found by the loop above, where
  \<open>rowData[col] === null\<close>, so \<open>col\<close> is a position of that row (lemmas
  \<open>findRow_dropRows\<close>, \<open>emptyAt_inside\<close>) and the assignment never extends the array.
\<close>

definition placeToken :: "board \<Rightarrow> int \<Rightarrow> int \<Rightarrow> color \<Rightarrow> board" where
  "placeToken b row col playerColor =
     (case row_of b row of
        None \<Rightarrow> b
      | Some targetRow \<Rightarrow> b[nat row := targetRow[nat col := Some playerColor]])"

section \<open>Server state, outbound events\<close>

text \<open>
  \<open>socket.emit\<close> addresses the acting connection; \<open>io.to(name).emit\<close> addresses the
  room of that name.  A room name is a string: \<open>"main"\<close> for the lobby, a socket id
  (every socket is in the room of its own id), a game id, or any other string a
  client chooses.  Socket ids, generated ids and \<open>"main"\<close> are taken to be different
  strings.
\<close>

datatype room = MainRoom | SocketRoom sid | GameRoom uuid | OtherRoom string

text \<open>The game id that a client's string is, if it is one.\<close>

fun gameKey :: "room \<Rightarrow> uuid option" where
  "gameKey (GameRoom g) = Some g"
| "gameKey MainRoom = None"
| "gameKey (SocketRoom s) = None"
| "gameKey (OtherRoom x) = None"

datatype target = ToSocket sid | ToRoom room

datatype event =
    OnlineUsersEv "OnlineUser list"
  | NewLobbyMessage LobbyMessage
  | ChallengeReceived sid string sid uuid
  | ChallengeAccepted uuid
  | ChallengeDeclined string
  | ChallengeTimeout
  | GameState board color Players "outcome option" "cells option"
  | GameOver outcome "cells option"
  | OpponentForfeited string
  | InvalidMove string
  | NewGameMessage LobbyMessage

type_synonym out = "(target \<times> event) list"

text \<open>
  The three \<open>Map\<close>s keep insertion order, so each is an association list
  (\<open>map_of\<close> reads, \<open>AList.update\<close> is \<open>set\<close>, \<open>AList.delete\<close> is \<open>delete\<close>).
  \<open>hasJoinedLobby\<close> and \<open>socketData\<close> are the per-socket \<open>socket.data\<close> fields,
  \<open>rooms\<close> the memberships made by \<open>socket.join\<close>.  A pending \<open>setTimeout\<close> is an
  entry of \<open>challengeTimers\<close> (keyed by the handle stored in the challenge, with the
  two socket ids its callback closes over) or of \<open>cleanupTimers\<close> (the 30 second
  deletion of a finished game); \<open>clearTimeout\<close> removes the entry, and a timer
  that is not pending does not fire.
\<close>

record state =
  onlineUsers :: "(sid \<times> OnlineUser) list"
  activeChallenges :: "(uuid \<times> Challenge) list"
  activeGames :: "(uuid \<times> GameData) list"
  hasJoinedLobby :: "sid set"
  socketData :: "sid \<rightharpoonup> string \<times> uid"
  rooms :: "(sid \<times> room) set"
  challengeTimers :: "uuid \<rightharpoonup> sid \<times> sid"
  cleanupTimers :: "uuid set"
  nextUuid :: uuid

definition init :: state where
  "init = \<lparr>onlineUsers = [], activeChallenges = [], activeGames = [],
            hasJoinedLobby = {}, socketData = Map.empty, rooms = {},
            challengeTimers = Map.empty, cleanupTimers = {}, nextUuid = 0\<rparr>"

section \<open>Socket handlers\<close>

text \<open>
  Each handler takes the state, the id of the socket the event arrived on and the
  event's payload, and returns the new state with the events it emits, in order.
  The server runs one handler at a time; the handlers that \<open>await\<close> a database write
  (\<open>joinLobby\<close>, the chat handlers, \<open>disconnect\<close>) have changed the maps before they
  wait and only emit a chat message after it, so each is one step here.
\<close>

definition systemMessage :: "uuid \<Rightarrow> string \<Rightarrow> string \<Rightarrow> LobbyMessage" where
  "systemMessage msgId txt ts =
     \<lparr>msg_id = msgId, msg_userId = ''system'', msg_username = ''System'',
      msg_text = txt, msg_ts = ts, msg_system = Some True\<rparr>"

text \<open>
  \<open>joinLobby\<close>.  The database insert between the two emits is outside the model; its
  failure is caught and logged by the handler.
\<close>

definition joinLobby :: "state \<Rightarrow> sid \<Rightarrow> uid \<Rightarrow> string \<Rightarrow> string \<Rightarrow> state \<times> out" where
  "joinLobby st socket uid uname ts =
     (if socket \<in> hasJoinedLobby st then (st, [])
      else
        let users1 = filter (\<lambda>(sockId, user). \<not> (userId user = uid \<and> sockId \<noteq> socket))
                       (onlineUsers st);
            users2 = AList.update socket
                       \<lparr>socketId = socket, userId = uid, username = uname\<rparr> users1;
            usersList = map snd users2;
            msgId = nextUuid st;
            joinMsg = systemMessage msgId (uname @ '' joined the lobby'') ts
        in (st\<lparr>hasJoinedLobby := insert socket (hasJoinedLobby st),
                rooms := insert (socket, MainRoom) (rooms st),
                socketData := (socketData st)(socket \<mapsto> (uname, uid)),
                onlineUsers := users2,
                nextUuid := Suc msgId\<rparr>,
            [(ToRoom MainRoom, OnlineUsersEv usersList),
             (ToRoom MainRoom, NewLobbyMessage joinMsg)]))"

text \<open>
  \<open>sendLobbyMessage\<close>; \<open>clean\<close> is the text after \<open>sanitizeHtml(...).trim()\<close>, an
  external library.
\<close>

definition sendLobbyMessage :: "state \<Rightarrow> sid \<Rightarrow> string \<Rightarrow> string \<Rightarrow> state \<times> out" where
  "sendLobbyMessage st socket clean ts =
     (case map_of (onlineUsers st) socket of
        None \<Rightarrow> (st, [])
      | Some user \<Rightarrow>
          if clean = [] then (st, [])
          else
            let msgId = nextUuid st;
                msg = \<lparr>msg_id = msgId, msg_userId = userId user,
                       msg_username = username user, msg_text = clean, msg_ts = ts,
                       msg_system = None\<rparr>
            in (st\<lparr>nextUuid := Suc msgId\<rparr>, [(ToRoom MainRoom, NewLobbyMessage msg)]))"

definition sendChallenge :: "state \<Rightarrow> sid \<Rightarrow> sid \<Rightarrow> string \<Rightarrow> state \<times> out" where
  "sendChallenge st socket to toName =
     (case map_of (onlineUsers st) socket of
        None \<Rightarrow> (st, [])
      | Some challenger \<Rightarrow>
          (case map_of (onlineUsers st) to of
             None \<Rightarrow> (st, [])
           | Some opponent \<Rightarrow>
               let challengeId = nextUuid st;
                   challenge =
                     \<lparr>challenge_id = challengeId, from_socket = socket,
                      fromUsername = username challenger, fromUserId = userId challenger,
                      to_socket = to, toUsername = username opponent,
                      toUserId = userId opponent, timeout = challengeId\<rparr>
               in (st\<lparr>nextUuid := Suc challengeId,
                       challengeTimers := (challengeTimers st)(challengeId \<mapsto> (socket, to)),
                       activeChallenges :=
                         AList.update challengeId challenge (activeChallenges st)\<rparr>,
                   [(ToRoom (SocketRoom to),
                     ChallengeReceived socket (username challenger) to challengeId)])))"

text \<open>The callback armed by \<open>sendChallenge\<close>, run when the 10 second timer fires.\<close>

definition challengeTimerFires :: "state \<Rightarrow> uuid \<Rightarrow> state \<times> out" where
  "challengeTimerFires st challengeId =
     (case challengeTimers st challengeId of
        None \<Rightarrow> (st, [])
      | Some (socket, to) \<Rightarrow>
          (st\<lparr>challengeTimers := (challengeTimers st)(challengeId := None),
               activeChallenges := AList.delete challengeId (activeChallenges st)\<rparr>,
           [(ToSocket socket, ChallengeTimeout),
            (ToRoom (SocketRoom to), ChallengeTimeout)]))"

definition acceptChallenge :: "state \<Rightarrow> sid \<Rightarrow> uuid \<Rightarrow> sid \<Rightarrow> state \<times> out" where
  "acceptChallenge st socket challengeId frm =
     (case map_of (activeChallenges st) challengeId of
        None \<Rightarrow> (st, [])
      | Some challenge \<Rightarrow>
          let gameId = nextUuid st;
              game =
                \<lparr>game_id = gameId, board = createEmptyBoard, currentTurn = Red,
                 players =
                   \<lparr>red = \<lparr>socketId = from_socket challenge,
                           userId = fromUserId challenge,
                           username = fromUsername challenge\<rparr>,
                    yellow = \<lparr>socketId = to_socket challenge,
                              userId = toUserId challenge,
                              username = toUsername challenge\<rparr>\<rparr>,
                 winner = None, winningCells = None\<rparr>
          in (st\<lparr>challengeTimers := (challengeTimers st)(timeout challenge := None),
                  activeChallenges := AList.delete challengeId (activeChallenges st),
                  nextUuid := Suc gameId,
                  activeGames := AList.update gameId game (activeGames st)\<rparr>,
              [(ToSocket socket, ChallengeAccepted gameId),
               (ToRoom (SocketRoom frm), ChallengeAccepted gameId)]))"

definition declineChallenge :: "state \<Rightarrow> sid \<Rightarrow> uuid \<Rightarrow> sid \<Rightarrow> state \<times> out" where
  "declineChallenge st socket challengeId frm =
     (case map_of (activeChallenges st) challengeId of
        None \<Rightarrow> (st, [])
      | Some challenge \<Rightarrow>
          let decliner = map_of (onlineUsers st) socket;
              name = (case decliner of
                        None \<Rightarrow> ''Opponent''
                      | Some u \<Rightarrow> if username u = [] then ''Opponent'' else username u)
          in (st\<lparr>challengeTimers := (challengeTimers st)(timeout challenge := None),
                  activeChallenges := AList.delete challengeId (activeChallenges st)\<rparr>,
              [(ToRoom (SocketRoom frm), ChallengeDeclined name)]))"

definition gameStateOf :: "GameData \<Rightarrow> event" where
  "gameStateOf game =
     GameState (board game) (currentTurn game) (players game) (winner game)
       (winningCells game)"

text \<open>
  \<open>joinGame\<close>.  The payload's \<open>gameId\<close> is whatever string the client sent; the
  handler joins the room of that name before it looks the game up, so the socket
  stays in the room also when no such game exists or the user is not one of its
  players.
\<close>

definition joinGame :: "state \<Rightarrow> sid \<Rightarrow> room \<Rightarrow> uid \<Rightarrow> string \<Rightarrow> state \<times> out" where
  "joinGame st socket gameId uid uname =
     (let st1 = st\<lparr>rooms := insert (socket, gameId) (rooms st)\<rparr> in
      case gameKey gameId of
        None \<Rightarrow> (st1, [])
      | Some g \<Rightarrow>
          (case map_of (activeGames st) g of
             None \<Rightarrow> (st1, [])
           | Some game \<Rightarrow>
               if userId (red (players game)) = uid then
                 let game' = game\<lparr>players :=
                               (players game)\<lparr>red := (red (players game))\<lparr>socketId := socket\<rparr>\<rparr>\<rparr>
                 in (st1\<lparr>activeGames := AList.update g game' (activeGames st)\<rparr>,
                     [(ToRoom gameId, gameStateOf game')])
               else if userId (yellow (players game)) = uid then
                 let game' = game\<lparr>players :=
                               (players game)\<lparr>yellow := (yellow (players game))\<lparr>socketId := socket\<rparr>\<rparr>\<rparr>
                 in (st1\<lparr>activeGames := AList.update g game' (activeGames st)\<rparr>,
                     [(ToRoom gameId, gameStateOf game')])
               else (st1, [])))"

text \<open>
  \<open>makeMove\<close>.  The column is an integer; the result is \<open>None\<close> only if
  \<open>checkWinner\<close> does not return.
\<close>

definition playerColorOf :: "GameData \<Rightarrow> sid \<Rightarrow> color" where
  "playerColorOf game socket =
     (if socketId (red (players game)) = socket then Red else Yellow)"

definition makeMove :: "state \<Rightarrow> sid \<Rightarrow> uuid \<Rightarrow> int \<Rightarrow> (state \<times> out) option" where
  "makeMove st socket gameId col =
     (case map_of (activeGames st) gameId of
        None \<Rightarrow> Some (st, [])
      | Some game \<Rightarrow>
          let playerColor = playerColorOf game socket in
          if currentTurn game \<noteq> playerColor then
            Some (st, [(ToSocket socket, InvalidMove ''It's not your turn!'')])
          else if winner game \<noteq> None then
            Some (st, [(ToSocket socket, InvalidMove ''Game is already over!'')])
          else if col < 0 \<or> col \<ge> 7 then
            Some (st, [(ToSocket socket, InvalidMove ''Invalid column!'')])
          else
            let row = findRow (board game) col dropRows in
            if row = -1 then
              Some (st, [(ToSocket socket, InvalidMove ''Column is full!'')])
            else
              let board' = placeToken (board game) row col playerColor in
              (case checkWinner board' row col of
                 None \<Rightarrow> None
               | Some (Some w, cs) \<Rightarrow>
                   let game' = game\<lparr>board := board', winner := Some (Won w),
                                    winningCells := cs\<rparr>
                   in Some (st\<lparr>activeGames := AList.update gameId game' (activeGames st),
                                cleanupTimers := insert gameId (cleanupTimers st)\<rparr>,
                            [(ToRoom (GameRoom gameId), gameStateOf game'),
                             (ToRoom (GameRoom gameId), GameOver (Won w) cs)])
               | Some (None, cs) \<Rightarrow>
                   if isBoardFull board' then
                     let game' = game\<lparr>board := board', winner := Some Draw\<rparr>
                     in Some (st\<lparr>activeGames := AList.update gameId game' (activeGames st),
                                  cleanupTimers := insert gameId (cleanupTimers st)\<rparr>,
                              [(ToRoom (GameRoom gameId),
                                GameState (board game') (currentTurn game') (players game')
                                  (Some Draw) None),
                               (ToRoom (GameRoom gameId), GameOver Draw None)])
                   else
                     let game' = game\<lparr>board := board',
                                      currentTurn :=
                                        (if currentTurn game = Red then Yellow else Red)\<rparr>
                     in Some (st\<lparr>activeGames := AList.update gameId game' (activeGames st)\<rparr>,
                              [(ToRoom (GameRoom gameId), gameStateOf game')])))"

text \<open>The callback armed after a win or a draw, run when the 30 second timer fires.\<close>

definition cleanupTimerFires :: "state \<Rightarrow> uuid \<Rightarrow> state \<times> out" where
  "cleanupTimerFires st gameId =
     (if gameId \<in> cleanupTimers st then
        (st\<lparr>cleanupTimers := cleanupTimers st - {gameId},
             activeGames := AList.delete gameId (activeGames st)\<rparr>, [])
      else (st, []))"

definition forfeitGame :: "state \<Rightarrow> sid \<Rightarrow> uuid \<Rightarrow> state \<times> out" where
  "forfeitGame st socket gameId =
     (case map_of (activeGames st) gameId of
        None \<Rightarrow> (st, [])
      | Some game \<Rightarrow>
          let forfeiter = (if socketId (red (players game)) = socket
                           then red (players game) else yellow (players game));
              opponent = (if socketId (red (players game)) = socket
                          then yellow (players game) else red (players game))
          in (st\<lparr>activeGames := AList.delete gameId (activeGames st)\<rparr>,
              [(ToRoom (SocketRoom (socketId opponent)),
                OpponentForfeited (username forfeiter))]))"

definition sendGameMessage :: "state \<Rightarrow> sid \<Rightarrow> uuid \<Rightarrow> string \<Rightarrow> string \<Rightarrow> state \<times> out" where
  "sendGameMessage st socket gameId clean ts =
     (case map_of (activeGames st) gameId of
        None \<Rightarrow> (st, [])
      | Some game \<Rightarrow>
          let player = (if socketId (red (players game)) = socket
                        then red (players game) else yellow (players game))
          in if clean = [] then (st, [])
             else
               let msgId = nextUuid st;
                   msg = \<lparr>msg_id = msgId, msg_userId = userId player,
                          msg_username = username player, msg_text = clean, msg_ts = ts,
                          msg_system = None\<rparr>
               in (st\<lparr>nextUuid := Suc msgId\<rparr>,
                   [(ToRoom (GameRoom gameId), NewGameMessage msg)]))"

text \<open>
  \<open>disconnect\<close>.  The \<open>forEach\<close> visits the pending challenges in insertion order;
  for each one that names the socket it clears the timer, notifies the other side and
  deletes the entry it is visiting.
\<close>

definition involves :: "sid \<Rightarrow> uuid \<times> Challenge \<Rightarrow> bool" where
  "involves socket e = (from_socket (snd e) = socket \<or> to_socket (snd e) = socket)"

definition disconnect :: "state \<Rightarrow> sid \<Rightarrow> string \<Rightarrow> state \<times> out" where
  "disconnect st socket ts =
     (case map_of (onlineUsers st) socket of
        None \<Rightarrow> (st, [])
      | Some user \<Rightarrow>
          let users' = AList.delete socket (onlineUsers st);
              hit = filter (involves socket) (activeChallenges st);
              timers' = (\<lambda>h. if h \<in> set (map (timeout \<circ> snd) hit) then None
                              else challengeTimers st h);
              notes = map (\<lambda>e. (ToRoom (SocketRoom
                                   (if from_socket (snd e) = socket then to_socket (snd e)
                                    else from_socket (snd e))),
                                 ChallengeTimeout)) hit;
              challenges' = filter (\<lambda>e. \<not> involves socket e) (activeChallenges st);
              usersList = map snd users';
              msgId = nextUuid st;
              leaveMsg = systemMessage msgId (username user @ '' left the lobby'') ts
          in (st\<lparr>onlineUsers := users', challengeTimers := timers',
                  activeChallenges := challenges', nextUuid := Suc msgId\<rparr>,
              notes @ [(ToRoom MainRoom, OnlineUsersEv usersList),
                       (ToRoom MainRoom, NewLobbyMessage leaveMsg)]))"

section \<open>The server as a transition system\<close>

datatype input =
    JoinLobby sid uid string string
  | SendLobbyMessage sid string string
  | SendChallenge sid sid string
  | AcceptChallenge sid uuid sid
  | DeclineChallenge sid uuid sid
  | JoinGame sid room uid string
  | MakeMove sid uuid int
  | ForfeitGame sid uuid
  | SendGameMessage sid uuid string string
  | Disconnect sid string
  | ChallengeTimer uuid
  | CleanupTimer uuid

fun step :: "state \<Rightarrow> input \<Rightarrow> (state \<times> out) option" where
  "step st (JoinLobby s u n ts) = Some (joinLobby st s u n ts)"
| "step st (SendLobbyMessage s txt ts) = Some (sendLobbyMessage st s txt ts)"
| "step st (SendChallenge s to n) = Some (sendChallenge st s to n)"
| "step st (AcceptChallenge s c f) = Some (acceptChallenge st s c f)"
| "step st (DeclineChallenge s c f) = Some (declineChallenge st s c f)"
| "step st (JoinGame s g u n) = Some (joinGame st s g u n)"
| "step st (MakeMove s g col) = makeMove st s g col"
| "step st (ForfeitGame s g) = Some (forfeitGame st s g)"
| "step st (SendGameMessage s g txt ts) = Some (sendGameMessage st s g txt ts)"
| "step st (Disconnect s ts) = Some (disconnect st s ts)"
| "step st (ChallengeTimer c) = Some (challengeTimerFires st c)"
| "step st (CleanupTimer g) = Some (cleanupTimerFires st g)"

text \<open>The states the server can be in: those reached from \<open>init\<close> by inputs.\<close>

inductive reachable :: "state \<Rightarrow> bool" where
  reachable_init: "reachable init"
| reachable_step: "reachable st \<Longrightarrow> step st i = Some (st', evs) \<Longrightarrow> reachable st'"

text \<open>The boards a game can show: the empty board and every legal drop on one.\<close>

inductive legal_board :: "board \<Rightarrow> bool" where
  legal_empty: "legal_board createEmptyBoard"
| legal_drop: "legal_board b \<Longrightarrow> 0 \<le> col \<Longrightarrow> col < 7 \<Longrightarrow> findRow b col dropRows = row
                 \<Longrightarrow> row \<noteq> -1 \<Longrightarrow> legal_board (placeToken b row col playerColor)"

section \<open>Notions used to state the properties\<close>

subsection \<open>Cells, lines and runs\<close>

text \<open>
  \<open>holds b r c p\<close>: the cell \<open>(r, c)\<close> lies on the 6 by 7 grid and holds colour
  \<open>p\<close>.  \<open>emptyAt b r c\<close>: row \<open>r\<close> exists and its cell \<open>c\<close> is \<open>null\<close>.
\<close>

definition holds :: "board \<Rightarrow> int \<Rightarrow> int \<Rightarrow> color \<Rightarrow> bool" where
  "holds b r c p =
     (r \<ge> 0 \<and> r < 6 \<and> c \<ge> 0 \<and> c < 7 \<and>
      (case row_of b r of None \<Rightarrow> False | Some rw \<Rightarrow> cell_of rw c = Some (Some p)))"

definition emptyAt :: "board \<Rightarrow> int \<Rightarrow> int \<Rightarrow> bool" where
  "emptyAt b r c =
     (case row_of b r of None \<Rightarrow> False | Some rowData \<Rightarrow> cell_of rowData c = Some None)"

text \<open>
  Four in a line for \<open>p\<close> through \<open>(row, col)\<close> along \<open>d\<close>: for some offset \<open>k\<close> of
  the cell inside the window, the four cells at steps \<open>-k, ..., 3 - k\<close> all hold \<open>p\<close>.
\<close>

definition fourThrough :: "board \<Rightarrow> color \<Rightarrow> int \<times> int \<Rightarrow> int \<Rightarrow> int \<Rightarrow> bool" where
  "fourThrough b p d row col =
     list_ex (\<lambda>k. list_all (\<lambda>i. holds b (row + (i - k) * fst d) (col + (i - k) * snd d) p)
                    [0, 1, 2, 3]) [0, 1, 2, 3]"

text \<open>
  \<open>ray d r c n\<close> lists \<open>n\<close> cells from \<open>(r, c)\<close> in steps of \<open>d\<close>.  The merged run of an
  axis is the placed cell, then \<open>n1\<close> cells outward in the first direction, then
  \<open>n2\<close> cells outward in the second.  \<open>maxRun\<close> says that the \<open>n\<close> cells next to
  \<open>(row, col)\<close> in direction \<open>d\<close> hold \<open>p\<close> and the one after them does not.  An axis is
  well formed when its first direction is not zero and the second is its opposite.
\<close>

definition ray :: "int \<times> int \<Rightarrow> int \<Rightarrow> int \<Rightarrow> nat \<Rightarrow> cells" where
  "ray d r c n = map (\<lambda>j. (r + int j * fst d, c + int j * snd d)) [0..<n]"

definition mergedRun :: "int \<Rightarrow> int \<Rightarrow> int \<times> int \<Rightarrow> nat \<Rightarrow> int \<times> int \<Rightarrow> nat \<Rightarrow> cells" where
  "mergedRun row col d1 n1 d2 n2 =
     (row, col) # ray d1 (row + fst d1) (col + snd d1) n1
       @ ray d2 (row + fst d2) (col + snd d2) n2"

definition maxRun :: "board \<Rightarrow> color \<Rightarrow> int \<Rightarrow> int \<Rightarrow> int \<times> int \<Rightarrow> nat \<Rightarrow> bool" where
  "maxRun b p row col d n =
     (list_all (\<lambda>j. holds b (row + (int j + 1) * fst d) (col + (int j + 1) * snd d) p) [0..<n]
      \<and> \<not> holds b (row + (int n + 1) * fst d) (col + (int n + 1) * snd d) p)"

definition axisOk :: "(int \<times> int) \<times> (int \<times> int) \<Rightarrow> bool" where
  "axisOk a = ((fst (fst a) \<noteq> 0 \<or> snd (fst a) \<noteq> 0) \<and> snd a = (- fst (fst a), - snd (fst a)))"

text \<open>
  A board of the right shape, and one filled from the bottom: in every column an
  empty cell has only empty cells above it.
\<close>

definition wf_board :: "board \<Rightarrow> bool" where
  "wf_board b = (length b = 6 \<and> list_all (\<lambda>rw. length rw = 7) b)"

definition gravity :: "board \<Rightarrow> bool" where
  "gravity b =
     list_all (\<lambda>c. list_all (\<lambda>r. emptyAt b (r + 1) c \<longrightarrow> emptyAt b r c) [0, 1, 2, 3, 4])
       [0, 1, 2, 3, 4, 5, 6]"

subsection \<open>Runs of the server\<close>

text \<open>
  \<open>run\<close> feeds a list of inputs to the server, in arrival order; \<open>isMove\<close>
  recognises a \<open>makeMove\<close> input; \<open>other\<close> is the opposite colour.
\<close>

fun run :: "state \<Rightarrow> input list \<Rightarrow> state option" where
  "run st [] = Some st"
| "run st (i # ins) = (case step st i of None \<Rightarrow> None | Some (st', evs) \<Rightarrow> run st' ins)"


definition other :: "color \<Rightarrow> color" where
  "other c = (if c = Red then Yellow else Red)"


text \<open>
  The pending challenges have distinct ids that were all handed out already, each
  stores its own id as timer handle, and a timer is pending exactly for the pending
  challenges.
\<close>

definition challenge_inv :: "state \<Rightarrow> bool" where
  "challenge_inv st =
     (distinct (map fst (activeChallenges st))
      \<and> (\<forall>e\<in>set (activeChallenges st). fst e < nextUuid st \<and> timeout (snd e) = fst e)
      \<and> (\<forall>h. challengeTimers st h \<noteq> None \<longleftrightarrow> h \<in> fst ` set (activeChallenges st)))"

text \<open>
  The inputs that resolve the pending challenge \<open>cid\<close>: an accept or a decline
  naming it, its timer, and the disconnect of one of its two sockets while that
  socket is in the presence registry.  \<open>gone\<close>: the id was handed out, and neither a
  challenge nor a timer is left under it.
\<close>

fun resolves :: "state \<Rightarrow> uuid \<Rightarrow> input \<Rightarrow> bool" where
  "resolves st cid (AcceptChallenge s c f) = (c = cid)"
| "resolves st cid (DeclineChallenge s c f) = (c = cid)"
| "resolves st cid (ChallengeTimer c) = (c = cid)"
| "resolves st cid (Disconnect x ts) =
     (map_of (onlineUsers st) x \<noteq> None \<and>
      (case map_of (activeChallenges st) cid of
         None \<Rightarrow> False
       | Some ch \<Rightarrow> from_socket ch = x \<or> to_socket ch = x))"
| "resolves st cid _ = False"

definition gone :: "state \<Rightarrow> uuid \<Rightarrow> bool" where
  "gone st cid =
     (cid < nextUuid st \<and> map_of (activeChallenges st) cid = None
      \<and> challengeTimers st cid = None)"

text \<open>
  Every game id was handed out already; \<open>game_gone\<close>: the id was handed out and no
  game is stored under it.
\<close>

definition games_inv :: "state \<Rightarrow> bool" where
  "games_inv st = (\<forall>e\<in>set (activeGames st). fst e < nextUuid st)"

definition game_gone :: "state \<Rightarrow> uuid \<Rightarrow> bool" where
  "game_gone st gid = (gid < nextUuid st \<and> map_of (activeGames st) gid = None)"

subsection \<open>Delivery\<close>

text \<open>
  The sockets an emitted event reaches: the acting socket for \<open>socket.emit\<close>; for
  \<open>io.to(name).emit\<close> the sockets in the room of that name, where every socket is in
  the room of its own id.
\<close>

definition delivered :: "state \<Rightarrow> sid \<Rightarrow> target \<times> event \<Rightarrow> bool" where
  "delivered st s e =
     (case fst e of
        ToSocket s' \<Rightarrow> s' = s
      | ToRoom r \<Rightarrow> r = SocketRoom s \<or> (s, r) \<in> rooms st)"

subsection \<open>Example states\<close>

text \<open>
  Alice (socket \<open>a\<close>) and Bob (socket \<open>b\<close>) join the lobby; Alice challenges Bob;
  Bob accepts, which creates game 3 with Alice as red; red drops into column 0.
\<close>

definition demoLobby :: state where
  "demoLobby = fst (joinLobby (fst (joinLobby init ''a'' ''1'' ''alice'' ''t0''))
                      ''b'' ''2'' ''bob'' ''t1'')"

definition demoPending :: state where
  "demoPending = fst (sendChallenge demoLobby ''a'' ''b'' ''bob'')"

definition demoPlaying :: state where
  "demoPlaying = fst (acceptChallenge demoPending ''b'' 2 ''a'')"

definition demoGame :: GameData where
  "demoGame =
     \<lparr>game_id = 3, board = createEmptyBoard, currentTurn = Red,
      players = \<lparr>red = \<lparr>socketId = ''a'', userId = ''1'', username = ''alice''\<rparr>,
                 yellow = \<lparr>socketId = ''b'', userId = ''2'', username = ''bob''\<rparr>\<rparr>,
      winner = None, winningCells = None\<rparr>"

definition demoRedMoved :: state where
  "demoRedMoved =
     demoPlaying\<lparr>activeGames :=
       [(3, demoGame\<lparr>board := placeToken createEmptyBoard 5 0 Red, currentTurn := Yellow\<rparr>)]\<rparr>"

text \<open>
  Bob's socket sends \<open>joinGame\<close> for game 3 with Alice's user id, which binds the red
  seat to his socket; and, separately, Alice's socket sends \<open>joinGame\<close> with Bob's
  socket id as \<open>gameId\<close>, which puts her socket into the room of his id.
\<close>

definition demoHijacked :: state where
  "demoHijacked = fst (joinGame demoPlaying ''b'' (GameRoom 3) ''1'' ''bob'')"

definition demoListening :: state where
  "demoListening = fst (joinGame demoPlaying ''a'' (SocketRoom ''b'') ''1'' ''alice'')"

subsection \<open>Example boards\<close>

text \<open>
  Red has just placed the token that completes a line: five in the bottom row
  (placed at \<open>(5, 2)\<close>), four in column 0 (placed at \<open>(2, 0)\<close>), four on the diagonal
  running down to the right from \<open>(2, 0)\<close>, and four on the diagonal running down to
  the left from \<open>(2, 6)\<close>.
\<close>

definition demoHorizontal :: board where
  "demoHorizontal =
     [replicate 7 None, replicate 7 None, replicate 7 None, replicate 7 None,
      replicate 7 None,
      [Some Red, Some Red, Some Red, Some Red, Some Red, None, None]]"

definition demoVertical :: board where
  "demoVertical =
     [replicate 7 None, replicate 7 None,
      [Some Red, Some Yellow, None, None, None, None, None],
      [Some Red, Some Yellow, None, None, None, None, None],
      [Some Red, Some Yellow, None, None, None, None, None],
      [Some Red, Some Red, None, None, None, None, None]]"

definition demoDiagRight :: board where
  "demoDiagRight =
     [replicate 7 None, replicate 7 None,
      [Some Red, None, None, None, None, None, None],
      [Some Yellow, Some Red, None, None, None, None, None],
      [Some Yellow, Some Yellow, Some Red, None, None, None, None],
      [Some Yellow, Some Red, Some Yellow, Some Red, None, None, None]]"

definition demoDiagLeft :: board where
  "demoDiagLeft =
     [replicate 7 None, replicate 7 None,
      [None, None, None, None, None, None, Some Red],
      [None, None, None, None, None, Some Red, Some Yellow],
      [None, None, None, None, Some Red, Some Yellow, Some Yellow],
      [None, None, None, Some Red, Some Yellow, Some Red, Some Yellow]]"

section \<open>The win check\<close>

subsection \<open>The scanning loop\<close>

lemma scan_stop: "\<not> holds b r c p \<Longrightarrow> scan b p d r c acc = Some acc"
  by (subst scan.simps) (auto simp: holds_def split: option.splits)

lemma scan_go: "holds b r c p \<Longrightarrow>
  scan b p d r c acc = scan b p d (r + fst d) (c + snd d) (acc @ [(r, c)])"
  by (subst scan.simps) (auto simp: holds_def split: option.splits)

lemma ray_Suc: "ray d r c (Suc n) = (r, c) # ray d (r + fst d) (c + snd d) n"
  unfolding ray_def by (simp add: map_upt_Suc algebra_simps del: upt_Suc)

lemma scan_ray:
  "(\<forall>j<n. holds b (r + int j * fst d) (c + int j * snd d) p) \<Longrightarrow>
   \<not> holds b (r + int n * fst d) (c + int n * snd d) p \<Longrightarrow>
   scan b p d r c acc = Some (acc @ ray d r c n)"
proof (induction n arbitrary: r c acc)
  case 0
  then show ?case by (simp add: scan_stop ray_def)
next
  case (Suc n)
  from Suc.prems(1) have h0: "holds b r c p" by force
  have step: "\<forall>j<n. holds b (r + fst d + int j * fst d) (c + snd d + int j * snd d) p"
  proof (intro allI impI)
    fix j assume "j < n"
    then have "holds b (r + int (Suc j) * fst d) (c + int (Suc j) * snd d) p"
      using Suc.prems(1) by (meson Suc_less_eq)
    then show "holds b (r + fst d + int j * fst d) (c + snd d + int j * snd d) p"
      by (simp add: algebra_simps)
  qed
  have stop: "\<not> holds b (r + fst d + int n * fst d) (c + snd d + int n * snd d) p"
    using Suc.prems(2) by (simp add: algebra_simps)
  show ?case
    using Suc.IH[OF step stop] h0 by (simp add: scan_go ray_Suc)
qed

lemma holds_leaves:
  assumes "fst d \<noteq> 0 \<or> snd d \<noteq> 0"
  shows "\<exists>n. \<not> holds b (r + int n * fst d) (c + int n * snd d) p"
proof (cases "holds b r c p")
  case False
  then have "\<not> holds b (r + int 0 * fst d) (c + int 0 * snd d) p" by simp
  then show ?thesis by blast
next
  case True
  then have inb: "0 \<le> r" "r < 6" "0 \<le> c" "c < 7" by (auto simp: holds_def)
  have "\<not> (0 \<le> r + 7 * fst d \<and> r + 7 * fst d < 6 \<and> 0 \<le> c + 7 * snd d \<and> c + 7 * snd d < 7)"
    using assms inb by arith
  then have "\<not> holds b (r + int 7 * fst d) (c + int 7 * snd d) p"
    by (auto simp: holds_def)
  then show ?thesis by blast
qed

lemma scan_total:
  assumes "fst d \<noteq> 0 \<or> snd d \<noteq> 0"
  shows "\<exists>n. scan b p d r c acc = Some (acc @ ray d r c n) \<and>
             (\<forall>j<n. holds b (r + int j * fst d) (c + int j * snd d) p) \<and>
             \<not> holds b (r + int n * fst d) (c + int n * snd d) p"
proof -
  let ?P = "\<lambda>n. \<not> holds b (r + int n * fst d) (c + int n * snd d) p"
  from holds_leaves[OF assms] have ex: "\<exists>n. ?P n" .
  define n where "n = (LEAST n. ?P n)"
  have stop: "?P n" unfolding n_def using ex by (rule LeastI_ex)
  have go: "\<forall>j<n. holds b (r + int j * fst d) (c + int j * snd d) p"
    unfolding n_def using not_less_Least by blast
  from scan_ray[OF go stop] go stop show ?thesis by blast
qed

lemma int_range4: "(\<forall>i::int. 0 \<le> i \<and> i \<le> 3 \<longrightarrow> P i) \<longleftrightarrow> P 0 \<and> P 1 \<and> P 2 \<and> P 3"
proof
  assume r: "P 0 \<and> P 1 \<and> P 2 \<and> P 3"
  show "\<forall>i::int. 0 \<le> i \<and> i \<le> 3 \<longrightarrow> P i"
  proof (intro allI impI)
    fix i :: int assume "0 \<le> i \<and> i \<le> 3"
    then have "i = 0 \<or> i = 1 \<or> i = 2 \<or> i = 3" by arith
    with r show "P i" by blast
  qed
qed simp

lemma int_ex4: "(\<exists>k::int. 0 \<le> k \<and> k \<le> 3 \<and> P k) \<longleftrightarrow> P 0 \<or> P 1 \<or> P 2 \<or> P 3"
  using int_range4[of "\<lambda>k. \<not> P k"] by blast

lemma fourThrough_iff:
  "fourThrough b p d row col \<longleftrightarrow>
     (\<exists>k::int. 0 \<le> k \<and> k \<le> 3 \<and>
        (\<forall>i::int. 0 \<le> i \<and> i \<le> 3 \<longrightarrow> holds b (row + (i - k) * fst d) (col + (i - k) * snd d) p))"
  unfolding int_range4 int_ex4 fourThrough_def by simp

lemma window:
  fixes H :: "int \<Rightarrow> bool"
  assumes inside: "\<forall>m. - int n2 \<le> m \<and> m \<le> int n1 \<longrightarrow> H m"
    and up: "\<not> H (int n1 + 1)" and down: "\<not> H (- int n2 - 1)"
  shows "(\<exists>k::int. 0 \<le> k \<and> k \<le> 3 \<and> (\<forall>i::int. 0 \<le> i \<and> i \<le> 3 \<longrightarrow> H (i - k))) \<longleftrightarrow> 3 \<le> n1 + n2"
proof
  assume "\<exists>k::int. 0 \<le> k \<and> k \<le> 3 \<and> (\<forall>i::int. 0 \<le> i \<and> i \<le> 3 \<longrightarrow> H (i - k))"
  then obtain k :: int where k: "0 \<le> k" "k \<le> 3" and all: "\<forall>i::int. 0 \<le> i \<and> i \<le> 3 \<longrightarrow> H (i - k)"
    by blast
  show "3 \<le> n1 + n2"
  proof (rule ccontr)
    assume "\<not> 3 \<le> n1 + n2"
    then have small: "int n1 + int n2 \<le> 2" by arith
    show False
    proof (cases "int n2 < k")
      case True
      then have "0 \<le> k - int n2 - 1 \<and> k - int n2 - 1 \<le> 3" using k by arith
      with all have "H ((k - int n2 - 1) - k)" by blast
      moreover have "(k - int n2 - 1) - k = - int n2 - 1" by simp
      ultimately show False using down by simp
    next
      case False
      then have "0 \<le> int n1 + 1 + k \<and> int n1 + 1 + k \<le> 3" using k small by arith
      with all have "H ((int n1 + 1 + k) - k)" by blast
      then show False using up by simp
    qed
  qed
next
  assume big: "3 \<le> n1 + n2"
  define k :: int where "k = min (int n2) 3"
  have "0 \<le> k" "k \<le> 3" by (simp_all add: k_def)
  moreover have "\<forall>i::int. 0 \<le> i \<and> i \<le> 3 \<longrightarrow> H (i - k)"
  proof (intro allI impI)
    fix i :: int assume "0 \<le> i \<and> i \<le> 3"
    then have "- int n2 \<le> i - k \<and> i - k \<le> int n1" using big by (auto simp: k_def)
    with inside show "H (i - k)" by blast
  qed
  ultimately show "\<exists>k::int. 0 \<le> k \<and> k \<le> 3 \<and> (\<forall>i::int. 0 \<le> i \<and> i \<le> 3 \<longrightarrow> H (i - k))"
    by blast
qed

lemma maxRun_four:
  assumes start: "holds b row col p"
    and m1: "maxRun b p row col d n1"
    and m2: "maxRun b p row col (- fst d, - snd d) n2"
  shows "fourThrough b p d row col \<longleftrightarrow> 4 \<le> 1 + n1 + n2"
proof -
  let ?H = "\<lambda>m. holds b (row + m * fst d) (col + m * snd d) p"
  have fw: "\<And>j. j < n1 \<Longrightarrow> ?H (int j + 1)" and up: "\<not> ?H (int n1 + 1)"
    using m1 by (auto simp: maxRun_def list_all_iff)
  have bw: "\<And>j. j < n2 \<Longrightarrow> ?H (- (int j + 1))" and down: "\<not> ?H (- int n2 - 1)"
    using m2 by (auto simp: maxRun_def list_all_iff algebra_simps)
  have inside: "\<forall>m. - int n2 \<le> m \<and> m \<le> int n1 \<longrightarrow> ?H m"
  proof (intro allI impI)
    fix m :: int assume m: "- int n2 \<le> m \<and> m \<le> int n1"
    consider "m = 0" | "0 < m" | "m < 0" by arith
    then show "?H m"
    proof cases
      case 1 then show ?thesis using start by simp
    next
      case 2
      then have "nat (m - 1) < n1" "m = int (nat (m - 1)) + 1" using m by auto
      then show ?thesis using fw[of "nat (m - 1)"] by metis
    next
      case 3
      then have "nat (- m - 1) < n2" "m = - (int (nat (- m - 1)) + 1)" using m by auto
      then show ?thesis using bw[of "nat (- m - 1)"] by metis
    qed
  qed
  have "fourThrough b p d row col \<longleftrightarrow> 3 \<le> n1 + n2"
    unfolding fourThrough_iff using window[of n2 n1 ?H, OF inside up down] .
  then show ?thesis by auto
qed

lemma scan_maxRun:
  assumes nz: "fst d \<noteq> 0 \<or> snd d \<noteq> 0"
  shows "\<exists>n. scan b p d (row + fst d) (col + snd d) acc
                = Some (acc @ ray d (row + fst d) (col + snd d) n)
             \<and> maxRun b p row col d n"
proof -
  from scan_total[OF nz, of b p "row + fst d" "col + snd d" acc]
  obtain n where n: "scan b p d (row + fst d) (col + snd d) acc
                       = Some (acc @ ray d (row + fst d) (col + snd d) n)"
    and go: "\<forall>j<n. holds b (row + fst d + int j * fst d) (col + snd d + int j * snd d) p"
    and stop: "\<not> holds b (row + fst d + int n * fst d) (col + snd d + int n * snd d) p"
    by blast
  have "maxRun b p row col d n"
    using go stop by (simp add: maxRun_def list_all_iff algebra_simps)
  with n show ?thesis by blast
qed

lemma axis_result:
  assumes nz: "fst d1 \<noteq> 0 \<or> snd d1 \<noteq> 0" and opp: "d2 = (- fst d1, - snd d1)"
  shows "\<exists>n1 n2. scan b p d1 (row + fst d1) (col + snd d1) [(row, col)]
                    = Some ([(row, col)] @ ray d1 (row + fst d1) (col + snd d1) n1)
           \<and> scan b p d2 (row + fst d2) (col + snd d2)
                 ([(row, col)] @ ray d1 (row + fst d1) (col + snd d1) n1)
                    = Some (mergedRun row col d1 n1 d2 n2)
           \<and> maxRun b p row col d1 n1 \<and> maxRun b p row col d2 n2
           \<and> length (mergedRun row col d1 n1 d2 n2) = 1 + n1 + n2"
proof -
  from scan_maxRun[OF nz, of b p row col "[(row, col)]"]
  obtain n1 where s1: "scan b p d1 (row + fst d1) (col + snd d1) [(row, col)]
                    = Some ([(row, col)] @ ray d1 (row + fst d1) (col + snd d1) n1)"
    and m1: "maxRun b p row col d1 n1" by blast
  have nz2: "fst d2 \<noteq> 0 \<or> snd d2 \<noteq> 0" using nz opp by simp
  from scan_maxRun[OF nz2, of b p row col "[(row, col)] @ ray d1 (row + fst d1) (col + snd d1) n1"]
  obtain n2 where s2: "scan b p d2 (row + fst d2) (col + snd d2)
                 ([(row, col)] @ ray d1 (row + fst d1) (col + snd d1) n1)
                    = Some (([(row, col)] @ ray d1 (row + fst d1) (col + snd d1) n1)
                            @ ray d2 (row + fst d2) (col + snd d2) n2)"
    and m2: "maxRun b p row col d2 n2" by blast
  have len: "length (mergedRun row col d1 n1 d2 n2) = 1 + n1 + n2"
    by (simp add: mergedRun_def ray_def)
  from s1 s2 m1 m2 len show ?thesis by (auto simp: mergedRun_def)
qed

lemma checkDirections_result:
  assumes start: "holds b row col p" and ok: "\<forall>a\<in>set ds. axisOk a"
  shows "(checkDirections b p row col ds = Some (None, None)
            \<and> (\<forall>a\<in>set ds. \<not> fourThrough b p (fst a) row col))
       \<or> (\<exists>a\<in>set ds. \<exists>n1 n2.
            checkDirections b p row col ds
              = Some (Some p, Some (mergedRun row col (fst a) n1 (snd a) n2))
            \<and> fourThrough b p (fst a) row col \<and> 4 \<le> 1 + n1 + n2
            \<and> maxRun b p row col (fst a) n1 \<and> maxRun b p row col (snd a) n2)"
  using ok
proof (induction ds)
  case Nil
  then show ?case by simp
next
  case (Cons a ds)
  from Cons.prems have a: "axisOk a" and rest: "\<forall>a\<in>set ds. axisOk a" by simp_all
  from a have nz: "fst (fst a) \<noteq> 0 \<or> snd (fst a) \<noteq> 0"
    and opp: "snd a = (- fst (fst a), - snd (fst a))" by (simp_all add: axisOk_def)
  from axis_result[OF nz opp, of b p row col]
  obtain n1 n2 where s1: "scan b p (fst a) (row + fst (fst a)) (col + snd (fst a)) [(row, col)]
                    = Some ([(row, col)] @ ray (fst a) (row + fst (fst a)) (col + snd (fst a)) n1)"
    and s2: "scan b p (snd a) (row + fst (snd a)) (col + snd (snd a))
                 ([(row, col)] @ ray (fst a) (row + fst (fst a)) (col + snd (fst a)) n1)
                    = Some (mergedRun row col (fst a) n1 (snd a) n2)"
    and m1: "maxRun b p row col (fst a) n1" and m2: "maxRun b p row col (snd a) n2"
    and len: "length (mergedRun row col (fst a) n1 (snd a) n2) = 1 + n1 + n2" by blast
  have four: "fourThrough b p (fst a) row col \<longleftrightarrow> 4 \<le> 1 + n1 + n2"
    using maxRun_four[OF start m1] m2 opp by simp
  show ?case
  proof (cases "4 \<le> 1 + n1 + n2")
    case True
    then have "checkDirections b p row col (a # ds)
                 = Some (Some p, Some (mergedRun row col (fst a) n1 (snd a) n2))"
      using s1 s2 len by (simp add: Let_def)
    with True four m1 m2 show ?thesis by auto
  next
    case False
    then have eq: "checkDirections b p row col (a # ds) = checkDirections b p row col ds"
      using s1 s2 len by (simp add: Let_def)
    from False four have nf: "\<not> fourThrough b p (fst a) row col" by simp
    from Cons.IH[OF rest] show ?thesis unfolding eq using nf by auto
  qed
qed

lemma directions_ok: "\<forall>a\<in>set directions. axisOk a"
  by (simp add: directions_def axisOk_def)

lemma checkWinner_cases:
  assumes "0 \<le> row" "row < 6" "0 \<le> col" "col < 7"
  shows "(checkWinner b row col = Some (None, None)
            \<and> (\<forall>p. holds b row col p \<longrightarrow>
                  (\<forall>a\<in>set directions. \<not> fourThrough b p (fst a) row col)))
       \<or> (\<exists>p. holds b row col p \<and> (\<exists>a\<in>set directions. \<exists>n1 n2.
            checkWinner b row col
              = Some (Some p, Some (mergedRun row col (fst a) n1 (snd a) n2))
            \<and> fourThrough b p (fst a) row col \<and> 4 \<le> 1 + n1 + n2
            \<and> maxRun b p row col (fst a) n1 \<and> maxRun b p row col (snd a) n2))"
proof (cases "\<exists>p. holds b row col p")
  case False
  then have "checkWinner b row col = Some (None, None)"
    using assms by (auto simp: checkWinner_def holds_def split: option.splits)
  with False show ?thesis by blast
next
  case True
  then obtain p where p: "holds b row col p" by blast
  then have cw: "checkWinner b row col = checkDirections b p row col directions"
    by (auto simp: checkWinner_def holds_def split: option.splits)
  have uniq: "\<And>q. holds b row col q \<Longrightarrow> q = p"
    using p by (auto simp: holds_def split: option.splits)
  from checkDirections_result[OF p directions_ok] show ?thesis
    unfolding cw using p uniq by blast
qed

lemma checkWinner_returns_any: "\<exists>res. checkWinner b row col = Some res"
proof (cases "\<exists>rw p. row_of b row = Some rw \<and> cell_of rw col = Some (Some p)")
  case False
  then show ?thesis by (auto simp: checkWinner_def split: option.splits)
next
  case True
  then obtain rw p where "row_of b row = Some rw" "cell_of rw col = Some (Some p)" by blast
  then have cw: "checkWinner b row col = checkDirections b p row col directions"
    by (simp add: checkWinner_def)
  have "\<exists>res. checkDirections b p row col ds = Some res" if "\<forall>a\<in>set ds. axisOk a" for ds
    using that
  proof (induction ds)
    case Nil then show ?case by simp
  next
    case (Cons a ds)
    then have nz: "fst (fst a) \<noteq> 0 \<or> snd (fst a) \<noteq> 0"
      and opp: "snd a = (- fst (fst a), - snd (fst a))" by (simp_all add: axisOk_def)
    from axis_result[OF nz opp, of b p row col] Cons show ?case
      by (auto simp: Let_def)
  qed
  with cw directions_ok show ?thesis by simp
qed

subsection \<open>Drops and fullness\<close>

lemma findRow_dropRows:
  assumes "findRow b col dropRows = row" and "row \<noteq> -1"
  shows "0 \<le> row \<and> row < 6 \<and> emptyAt b row col \<and> (\<forall>r. row < r \<and> r < 6 \<longrightarrow> \<not> emptyAt b r col)"
proof -
  have cases: "row = 5 \<and> emptyAt b 5 col
      \<or> row = 4 \<and> emptyAt b 4 col \<and> \<not> emptyAt b 5 col
      \<or> row = 3 \<and> emptyAt b 3 col \<and> \<not> emptyAt b 4 col \<and> \<not> emptyAt b 5 col
      \<or> row = 2 \<and> emptyAt b 2 col \<and> \<not> emptyAt b 3 col \<and> \<not> emptyAt b 4 col \<and> \<not> emptyAt b 5 col
      \<or> row = 1 \<and> emptyAt b 1 col \<and> \<not> emptyAt b 2 col \<and> \<not> emptyAt b 3 col
          \<and> \<not> emptyAt b 4 col \<and> \<not> emptyAt b 5 col
      \<or> row = 0 \<and> emptyAt b 0 col \<and> \<not> emptyAt b 1 col \<and> \<not> emptyAt b 2 col \<and> \<not> emptyAt b 3 col
          \<and> \<not> emptyAt b 4 col \<and> \<not> emptyAt b 5 col"
    using assms by (simp add: dropRows_def emptyAt_def split: option.splits if_splits)
  have above: "\<not> emptyAt b r col" if "row < r \<and> r < 6" for r
  proof -
    from that cases have "r = 1 \<or> r = 2 \<or> r = 3 \<or> r = 4 \<or> r = 5" by arith
    with that cases show ?thesis by auto
  qed
  from cases above show ?thesis by auto
qed

lemma findRow_full:
  "findRow b col dropRows = -1 \<longleftrightarrow> (\<forall>r\<in>set dropRows. \<not> emptyAt b r col)"
  by (simp add: dropRows_def emptyAt_def split: option.splits)

lemma placeToken_eq:
  assumes "emptyAt b row col"
  shows "placeToken b row col p = b[nat row := (b ! nat row)[nat col := Some p]]"
  using assms by (auto simp: placeToken_def emptyAt_def row_of_def split: option.splits if_splits)

lemma emptyAt_inside:
  "emptyAt b r c \<Longrightarrow> 0 \<le> r \<and> r < int (length b) \<and> 0 \<le> c \<and> c < int (length (b ! nat r))
     \<and> b ! nat r ! nat c = None"
  by (auto simp: emptyAt_def row_of_def cell_of_def split: option.splits if_splits)

lemma emptyAt_placeToken:
  assumes "emptyAt b row col"
  shows "emptyAt (placeToken b row col p) r c \<longleftrightarrow> emptyAt b r c \<and> \<not> (r = row \<and> c = col)"
proof -
  from emptyAt_inside[OF assms] have in1: "0 \<le> row" "row < int (length b)"
    "0 \<le> col" "col < int (length (b ! nat row))" by auto
  show ?thesis
  proof (cases "r = row")
    case True
    show ?thesis
    proof (cases "c = col")
      case True
      with \<open>r = row\<close> in1 show ?thesis
        by (simp add: placeToken_eq[OF assms] emptyAt_def row_of_def cell_of_def)
    next
      case False
      then have "nat c \<noteq> nat col \<or> c < 0" using in1 by auto
      with \<open>r = row\<close> False in1 show ?thesis
        by (auto simp: placeToken_eq[OF assms] emptyAt_def row_of_def cell_of_def)
    qed
  next
    case False
    then have "nat r \<noteq> nat row \<or> r < 0" using in1 by auto
    with False in1 show ?thesis
      by (auto simp: placeToken_eq[OF assms] emptyAt_def row_of_def cell_of_def)
  qed
qed

lemma wf_placeToken: "wf_board b \<Longrightarrow> wf_board (placeToken b row col p)"
  by (auto simp: wf_board_def placeToken_def row_of_def list_all_iff
           dest!: set_update_subset_insert[THEN subsetD] split: option.splits)

lemma gravity_iff:
  "gravity b \<longleftrightarrow> (\<forall>r c. 0 \<le> r \<and> r < 5 \<and> 0 \<le> c \<and> c < 7 \<and> emptyAt b (r + 1) c \<longrightarrow> emptyAt b r c)"
proof
  assume g: "gravity b"
  show "\<forall>r c. 0 \<le> r \<and> r < 5 \<and> 0 \<le> c \<and> c < 7 \<and> emptyAt b (r + 1) c \<longrightarrow> emptyAt b r c"
  proof (intro allI impI)
    fix r c :: int assume a: "0 \<le> r \<and> r < 5 \<and> 0 \<le> c \<and> c < 7 \<and> emptyAt b (r + 1) c"
    then have "r \<in> set [0, 1, 2, 3, 4]" "c \<in> set [0, 1, 2, 3, 4, 5, 6]" by (simp; arith)+
    with g a show "emptyAt b r c" unfolding gravity_def list_all_iff by blast
  qed
next
  assume "\<forall>r c. 0 \<le> r \<and> r < 5 \<and> 0 \<le> c \<and> c < 7 \<and> emptyAt b (r + 1) c \<longrightarrow> emptyAt b r c"
  then show "gravity b" unfolding gravity_def list_all_iff by auto
qed

lemma gravity_placeToken:
  assumes g: "gravity b" and f: "findRow b col dropRows = row" and nf: "row \<noteq> -1"
  shows "gravity (placeToken b row col p)"
proof -
  from findRow_dropRows[OF f nf] have rng: "0 \<le> row" "row < 6" and e: "emptyAt b row col"
    and above: "\<forall>r. row < r \<and> r < 6 \<longrightarrow> \<not> emptyAt b r col" by auto
  show ?thesis
    unfolding gravity_iff emptyAt_placeToken[OF e]
  proof (intro allI impI)
    fix r c :: int
    assume a: "0 \<le> r \<and> r < 5 \<and> 0 \<le> c \<and> c < 7 \<and> emptyAt b (r + 1) c \<and> \<not> (r + 1 = row \<and> c = col)"
    then have er: "emptyAt b r c" using g unfolding gravity_iff by blast
    have "\<not> (r = row \<and> c = col)"
    proof
      assume "r = row \<and> c = col"
      then have "\<not> emptyAt b (r + 1) c" using above a by auto
      with a show False by simp
    qed
    with er show "emptyAt b r c \<and> \<not> (r = row \<and> c = col)" by simp
  qed
qed

lemma legal_board_inv: "legal_board b \<Longrightarrow> wf_board b \<and> gravity b"
proof (induction rule: legal_board.induct)
  case legal_empty
  have "wf_board createEmptyBoard"
    by (simp add: wf_board_def createEmptyBoard_def list_all_iff)
  moreover have "gravity createEmptyBoard"
    by (simp add: gravity_def createEmptyBoard_def emptyAt_def row_of_def cell_of_def)
  ultimately show ?case by simp
next
  case (legal_drop b col row playerColor)
  then show ?case by (simp add: wf_placeToken gravity_placeToken)
qed

lemma wf_emptyAt:
  assumes "wf_board b" "r < 6" "c < 7"
  shows "emptyAt b (int r) (int c) \<longleftrightarrow> b ! r ! c = None"
  using assms by (auto simp: wf_board_def emptyAt_def row_of_def cell_of_def list_all_iff)

lemma gravity_column:
  assumes g: "gravity b" and top: "\<not> emptyAt b 0 (int c)" and c: "c < 7"
  shows "r < 6 \<Longrightarrow> \<not> emptyAt b (int r) (int c)"
proof (induction r)
  case 0
  then show ?case using top by simp
next
  case (Suc r)
  then have "\<not> emptyAt b (int r) (int c)" by simp
  moreover have "0 \<le> int r \<and> int r < 5 \<and> 0 \<le> int c \<and> int c < 7" using Suc.prems c by auto
  ultimately have "\<not> emptyAt b (int r + 1) (int c)" using g unfolding gravity_iff by blast
  then show ?case by (simp add: add.commute)
qed

lemma isBoardFull_top:
  assumes "wf_board b"
  shows "isBoardFull b \<longleftrightarrow> (\<forall>c<7. b ! 0 ! c \<noteq> None)"
  using assms
  by (auto simp: isBoardFull_def wf_board_def row_of_def list_all_iff all_set_conv_all_nth)

section \<open>The move handler\<close>

lemma makeMove_notfound:
  "map_of (activeGames st) gid = None \<Longrightarrow> makeMove st s gid col = Some (st, [])"
  by (simp add: makeMove_def)

lemma makeMove_wrong_turn:
  "map_of (activeGames st) gid = Some game \<Longrightarrow> currentTurn game \<noteq> playerColorOf game s \<Longrightarrow>
   makeMove st s gid col = Some (st, [(ToSocket s, InvalidMove ''It's not your turn!'')])"
  by (simp add: makeMove_def)

lemma makeMove_over:
  "map_of (activeGames st) gid = Some game \<Longrightarrow> currentTurn game = playerColorOf game s \<Longrightarrow>
   winner game \<noteq> None \<Longrightarrow>
   makeMove st s gid col = Some (st, [(ToSocket s, InvalidMove ''Game is already over!'')])"
  by (simp add: makeMove_def)

lemma makeMove_bad_column:
  "map_of (activeGames st) gid = Some game \<Longrightarrow> currentTurn game = playerColorOf game s \<Longrightarrow>
   winner game = None \<Longrightarrow> col < 0 \<or> col \<ge> 7 \<Longrightarrow>
   makeMove st s gid col = Some (st, [(ToSocket s, InvalidMove ''Invalid column!'')])"
  by (simp add: makeMove_def)

lemma makeMove_column_full:
  "map_of (activeGames st) gid = Some game \<Longrightarrow> currentTurn game = playerColorOf game s \<Longrightarrow>
   winner game = None \<Longrightarrow> 0 \<le> col \<Longrightarrow> col < 7 \<Longrightarrow> findRow (board game) col dropRows = -1 \<Longrightarrow>
   makeMove st s gid col = Some (st, [(ToSocket s, InvalidMove ''Column is full!'')])"
  by (simp add: makeMove_def)

lemma makeMove_accept:
  assumes g: "map_of (activeGames st) gid = Some game"
    and turn: "currentTurn game = playerColorOf game s"
    and nw: "winner game = None"
    and col: "0 \<le> col" "col < 7"
    and row: "findRow (board game) col dropRows = row" "row \<noteq> -1"
  shows "\<exists>game' evs.
           makeMove st s gid col
             = Some (st\<lparr>activeGames := AList.update gid game' (activeGames st),
                        cleanupTimers := (if winner game' = None then cleanupTimers st
                                          else insert gid (cleanupTimers st))\<rparr>, evs)
         \<and> board game' = placeToken (board game) row col (currentTurn game)
         \<and> players game' = players game \<and> game_id game' = game_id game
         \<and> (winner game' = None \<longrightarrow> currentTurn game' = other (currentTurn game))
         \<and> (winner game' \<noteq> None \<longrightarrow> currentTurn game' = currentTurn game)
         \<and> evs \<noteq> [] \<and> (\<forall>e\<in>set evs. fst e = ToRoom (GameRoom gid))"
proof -
  let ?b = "placeToken (board game) row col (currentTurn game)"
  obtain w cs where cw: "checkWinner ?b row col = Some (w, cs)"
    using checkWinner_returns_any[of ?b row col] by auto
  have pre: "\<not> (col < 0 \<or> col \<ge> 7)" using col by simp
  show ?thesis
  proof (cases w)
    case (Some p)
    let ?g = "game\<lparr>board := ?b, winner := Some (Won p), winningCells := cs\<rparr>"
    have "makeMove st s gid col
            = Some (st\<lparr>activeGames := AList.update gid ?g (activeGames st),
                       cleanupTimers := insert gid (cleanupTimers st)\<rparr>,
                    [(ToRoom (GameRoom gid), gameStateOf ?g),
                     (ToRoom (GameRoom gid), GameOver (Won p) cs)])"
      using g turn[symmetric] nw pre row cw Some
      by (simp add: makeMove_def Let_def)
    then show ?thesis
      by (intro exI[of _ ?g] exI[of _ "[(ToRoom (GameRoom gid), gameStateOf ?g),
                     (ToRoom (GameRoom gid), GameOver (Won p) cs)]"]) simp
  next
    case None
    show ?thesis
    proof (cases "isBoardFull ?b")
      case True
      let ?g = "game\<lparr>board := ?b, winner := Some Draw\<rparr>"
      have "makeMove st s gid col
              = Some (st\<lparr>activeGames := AList.update gid ?g (activeGames st),
                         cleanupTimers := insert gid (cleanupTimers st)\<rparr>,
                      [(ToRoom (GameRoom gid),
                        GameState (board ?g) (currentTurn ?g) (players ?g) (Some Draw) None),
                       (ToRoom (GameRoom gid), GameOver Draw None)])"
        using g turn[symmetric] nw pre row cw None True
        by (simp add: makeMove_def Let_def)
      then show ?thesis
        by (intro exI[of _ ?g] exI[of _ "[(ToRoom (GameRoom gid),
                        GameState (board ?g) (currentTurn ?g) (players ?g) (Some Draw) None),
                       (ToRoom (GameRoom gid), GameOver Draw None)]"]) simp
    next
      case False
      let ?g = "game\<lparr>board := ?b,
                      currentTurn := (if currentTurn game = Red then Yellow else Red)\<rparr>"
      have "makeMove st s gid col
              = Some (st\<lparr>activeGames := AList.update gid ?g (activeGames st)\<rparr>,
                      [(ToRoom (GameRoom gid), gameStateOf ?g)])"
        using g turn[symmetric] nw pre row cw None False
        by (simp add: makeMove_def Let_def)
      then show ?thesis
        by (intro exI[of _ ?g] exI[of _ "[(ToRoom (GameRoom gid), gameStateOf ?g)]"])
           (simp add: nw other_def)
    qed
  qed
qed

lemma placeToken_changes:
  assumes "emptyAt b row col"
  shows "placeToken b row col p \<noteq> b"
proof
  assume "placeToken b row col p = b"
  then have "emptyAt (placeToken b row col p) row col" using assms by simp
  then show False unfolding emptyAt_placeToken[OF assms] by simp
qed

lemma makeMove_cases:
  "(map_of (activeGames st) gid = None \<and> makeMove st s gid col = Some (st, []))
   \<or> (\<exists>msg. makeMove st s gid col = Some (st, [(ToSocket s, InvalidMove msg)]))
   \<or> (\<exists>game game' evs.
        map_of (activeGames st) gid = Some game \<and> winner game = None
        \<and> currentTurn game = playerColorOf game s
        \<and> makeMove st s gid col
             = Some (st\<lparr>activeGames := AList.update gid game' (activeGames st),
                        cleanupTimers := (if winner game' = None then cleanupTimers st
                                          else insert gid (cleanupTimers st))\<rparr>, evs)
        \<and> board game' \<noteq> board game
        \<and> (winner game' = None \<longrightarrow> currentTurn game' = other (currentTurn game))
        \<and> (winner game' \<noteq> None \<longrightarrow> currentTurn game' = currentTurn game)
        \<and> evs \<noteq> [] \<and> (\<forall>e\<in>set evs. fst e = ToRoom (GameRoom gid)))"
proof (cases "map_of (activeGames st) gid")
  case None
  then show ?thesis by (simp add: makeMove_notfound)
next
  case (Some game)
  show ?thesis
  proof (cases "currentTurn game = playerColorOf game s \<and> winner game = None
                 \<and> 0 \<le> col \<and> col < 7 \<and> findRow (board game) col dropRows \<noteq> -1")
    case False
    then consider "currentTurn game \<noteq> playerColorOf game s"
      | "currentTurn game = playerColorOf game s" "winner game \<noteq> None"
      | "currentTurn game = playerColorOf game s" "winner game = None" "col < 0 \<or> col \<ge> 7"
      | "currentTurn game = playerColorOf game s" "winner game = None" "0 \<le> col" "col < 7"
        "findRow (board game) col dropRows = -1"
      by force
    then show ?thesis
    proof cases
      case 1 from makeMove_wrong_turn[OF Some 1] show ?thesis by blast
    next
      case 2 from makeMove_over[OF Some 2] show ?thesis by blast
    next
      case 3 from makeMove_bad_column[OF Some 3] show ?thesis by blast
    next
      case 4 from makeMove_column_full[OF Some 4] show ?thesis by blast
    qed
  next
    case True
    then have turn: "currentTurn game = playerColorOf game s" and nw: "winner game = None"
      and col: "0 \<le> col" "col < 7" and nf: "findRow (board game) col dropRows \<noteq> -1" by auto
    from findRow_dropRows[OF refl nf]
    have e: "emptyAt (board game) (findRow (board game) col dropRows) col" by simp
    from makeMove_accept[OF Some turn nw col refl nf]
    obtain game' evs where
      mm: "makeMove st s gid col
             = Some (st\<lparr>activeGames := AList.update gid game' (activeGames st),
                        cleanupTimers := (if winner game' = None then cleanupTimers st
                                          else insert gid (cleanupTimers st))\<rparr>, evs)"
      and b: "board game' = placeToken (board game) (findRow (board game) col dropRows) col
                              (currentTurn game)"
      and rest: "winner game' = None \<longrightarrow> currentTurn game' = other (currentTurn game)"
        "winner game' \<noteq> None \<longrightarrow> currentTurn game' = currentTurn game"
        "evs \<noteq> []" "\<forall>e\<in>set evs. fst e = ToRoom (GameRoom gid)"
      by (elim exE conjE) (rule that)
    have "board game' \<noteq> board game" unfolding b by (rule placeToken_changes[OF e])
    with Some nw turn mm rest show ?thesis
      by (intro disjI2 exI[of _ game] exI[of _ game'] exI[of _ evs] conjI)
  qed
qed




section \<open>Invariants of the server\<close>

subsection \<open>Association lists\<close>

lemma map_of_filter_distinct:
  assumes keys: "distinct (map fst al)"
  shows "map_of (filter keep al) k
           = Option.bind (map_of al k) (\<lambda>v. if keep (k, v) then Some v else None)"
  using keys
proof (induction al)
  case Nil
  show ?case by simp
next
  case (Cons entry al)
  from Cons.prems have fresh: "map_of al (fst entry) = None"
    by (simp add: map_of_eq_None_iff)
  from Cons.prems have "distinct (map fst al)" by simp
  from Cons.IH[OF this] fresh show ?case
    by (cases entry) (auto simp: bind_eq_None_conv)
qed

lemma map_of_filter_None: "map_of xs k = None \<Longrightarrow> map_of (filter P xs) k = None"
  by (induction xs) (auto split: if_splits)


subsection \<open>Presence registry\<close>








subsection \<open>The join flag\<close>

lemma makeMove_hasJoined:
  "makeMove st s g col = Some (st', evs) \<Longrightarrow> hasJoinedLobby st' = hasJoinedLobby st"
  using makeMove_cases[where st=st and gid=g and s=s and col=col] by auto

lemma hasJoined_step:
  assumes "s \<in> hasJoinedLobby st" "step st i = Some (st', evs)"
  shows "s \<in> hasJoinedLobby st'"
proof (cases i)
  case (MakeMove s' g col)
  with assms makeMove_hasJoined[of st s' g col st' evs] show ?thesis by simp
next
  case (JoinLobby s' u n ts)
  with assms show ?thesis by (auto simp: joinLobby_def Let_def split: if_splits)
next
  case (Disconnect s' ts)
  with assms show ?thesis by (auto simp: disconnect_def Let_def split: option.splits)
next
  case (SendLobbyMessage s' m ts)
  with assms show ?thesis
    by (auto simp: sendLobbyMessage_def Let_def split: option.splits if_splits)
next
  case (SendChallenge s' t n)
  with assms show ?thesis by (auto simp: sendChallenge_def Let_def split: option.splits)
next
  case (AcceptChallenge s' c f)
  with assms show ?thesis by (auto simp: acceptChallenge_def Let_def split: option.splits)
next
  case (DeclineChallenge s' c f)
  with assms show ?thesis by (auto simp: declineChallenge_def Let_def split: option.splits)
next
  case (JoinGame s' g u n)
  with assms show ?thesis by (auto simp: joinGame_def Let_def split: option.splits if_splits)
next
  case (ForfeitGame s' g)
  with assms show ?thesis by (auto simp: forfeitGame_def Let_def split: option.splits)
next
  case (SendGameMessage s' g m ts)
  with assms show ?thesis
    by (auto simp: sendGameMessage_def Let_def split: option.splits if_splits)
next
  case (ChallengeTimer c)
  with assms show ?thesis by (auto simp: challengeTimerFires_def split: option.splits)
next
  case (CleanupTimer g)
  with assms show ?thesis by (auto simp: cleanupTimerFires_def split: if_splits)
qed

lemma hasJoined_run:
  "s \<in> hasJoinedLobby st \<Longrightarrow> run st ins = Some st' \<Longrightarrow> s \<in> hasJoinedLobby st'"
proof (induction ins arbitrary: st)
  case Nil
  then show ?case by simp
next
  case (Cons i ins)
  from Cons.prems(2) obtain st1 evs where st1: "step st i = Some (st1, evs)"
    and r: "run st1 ins = Some st'" by (auto split: option.splits)
  from hasJoined_step[OF Cons.prems(1) st1] have "s \<in> hasJoinedLobby st1" .
  from Cons.IH[OF this r] show ?case .
qed

lemma joinLobby_sets_flag: "s \<in> hasJoinedLobby (fst (joinLobby st s u n ts))"
  by (simp add: joinLobby_def Let_def)

subsection \<open>Pending challenges and their timers\<close>

lemma makeMove_challenges:
  "makeMove st s g col = Some (st', evs) \<Longrightarrow>
   activeChallenges st' = activeChallenges st \<and> challengeTimers st' = challengeTimers st
   \<and> nextUuid st' = nextUuid st"
  using makeMove_cases[where st=st and gid=g and s=s and col=col] by auto

lemma challenge_inv_same:
  assumes "challenge_inv st" "activeChallenges st' = activeChallenges st"
    "challengeTimers st' = challengeTimers st" "nextUuid st \<le> nextUuid st'"
  shows "challenge_inv st'"
proof -
  have "\<forall>e\<in>set (activeChallenges st). fst e < nextUuid st' \<and> timeout (snd e) = fst e"
    using assms(1,4) unfolding challenge_inv_def by force
  with assms(1) show ?thesis unfolding challenge_inv_def assms(2,3) by blast
qed

lemma challenge_inv_remove:
  assumes inv: "challenge_inv st" and c: "map_of (activeChallenges st) cid = Some ch"
    and ch: "activeChallenges st' = AList.delete cid (activeChallenges st)"
    and tm: "challengeTimers st' = (challengeTimers st)(cid := None)"
    and nx: "nextUuid st \<le> nextUuid st'"
  shows "challenge_inv st'"
proof -
  from inv have d: "distinct (map fst (activeChallenges st))"
    and k: "\<forall>e\<in>set (activeChallenges st). fst e < nextUuid st \<and> timeout (snd e) = fst e"
    and t: "\<forall>h. challengeTimers st h \<noteq> None \<longleftrightarrow> h \<in> fst ` set (activeChallenges st)"
    by (simp_all add: challenge_inv_def)
  have keys: "fst ` set (AList.delete cid (activeChallenges st))
                = fst ` set (activeChallenges st) - {cid}"
    by (auto simp: AList.delete_eq image_iff)
  have sub: "set (AList.delete cid (activeChallenges st)) \<subseteq> set (activeChallenges st)"
    by (auto simp: AList.delete_eq)
  have "distinct (map fst (activeChallenges st'))"
    unfolding ch using d by (rule distinct_delete)
  moreover have "\<forall>e\<in>set (activeChallenges st'). fst e < nextUuid st' \<and> timeout (snd e) = fst e"
  proof
    fix e assume "e \<in> set (activeChallenges st')"
    then have "e \<in> set (activeChallenges st)" using sub ch by auto
    with k nx show "fst e < nextUuid st' \<and> timeout (snd e) = fst e" by force
  qed
  moreover have "\<forall>h. challengeTimers st' h \<noteq> None \<longleftrightarrow> h \<in> fst ` set (activeChallenges st')"
    unfolding ch tm keys using t by simp
  ultimately show ?thesis unfolding challenge_inv_def by blast
qed

lemma challenge_inv_timeout_key:
  "challenge_inv st \<Longrightarrow> map_of (activeChallenges st) cid = Some ch \<Longrightarrow> timeout ch = cid"
  by (auto simp: challenge_inv_def dest!: map_of_SomeD)

lemma challenge_inv_armed:
  assumes "challenge_inv st" "map_of (activeChallenges st) cid = Some ch"
  shows "challengeTimers st cid \<noteq> None"
proof -
  from assms(2) have "(cid, ch) \<in> set (activeChallenges st)" by (rule map_of_SomeD)
  then have "cid \<in> fst ` set (activeChallenges st)" by force
  with assms(1) show ?thesis unfolding challenge_inv_def by blast
qed

lemma challenge_inv_sendChallenge:
  assumes inv: "challenge_inv st"
  shows "challenge_inv (fst (sendChallenge st s t n))"
proof (cases "\<exists>a b. map_of (onlineUsers st) s = Some a \<and> map_of (onlineUsers st) t = Some b")
  case False
  then show ?thesis using inv by (auto simp: sendChallenge_def split: option.splits)
next
  case True
  then obtain a b where a: "map_of (onlineUsers st) s = Some a"
    and b: "map_of (onlineUsers st) t = Some b" by blast
  let ?c = "\<lparr>challenge_id = nextUuid st, from_socket = s, fromUsername = username a,
             fromUserId = userId a, to_socket = t, toUsername = username b,
             toUserId = userId b, timeout = nextUuid st\<rparr>"
  have fresh: "nextUuid st \<notin> fst ` set (activeChallenges st)"
    using inv by (auto simp: challenge_inv_def)
  have upd': "\<And>xs. nextUuid st \<notin> fst ` set xs \<Longrightarrow>
                AList.update (nextUuid st) ?c xs = xs @ [(nextUuid st, ?c)]"
  proof -
    fix xs :: "(uuid \<times> Challenge) list"
    show "nextUuid st \<notin> fst ` set xs \<Longrightarrow> AList.update (nextUuid st) ?c xs = xs @ [(nextUuid st, ?c)]"
      by (induction xs) (auto simp: image_iff)
  qed
  have st': "fst (sendChallenge st s t n)
               = st\<lparr>nextUuid := Suc (nextUuid st),
                     challengeTimers := (challengeTimers st)(nextUuid st \<mapsto> (s, t)),
                     activeChallenges := activeChallenges st @ [(nextUuid st, ?c)]\<rparr>"
    using a b upd'[OF fresh] by (simp add: sendChallenge_def Let_def)
  show ?thesis
    unfolding st' using inv fresh
    by (auto simp: challenge_inv_def image_iff less_Suc_eq)
qed

lemma challenge_inv_disconnect:
  assumes inv: "challenge_inv st"
  shows "challenge_inv (fst (disconnect st x ts))"
proof (cases "map_of (onlineUsers st) x")
  case None
  then show ?thesis using inv by (simp add: disconnect_def)
next
  case (Some user)
  let ?hit = "filter (involves x) (activeChallenges st)"
  let ?keep = "filter (\<lambda>e. \<not> involves x e) (activeChallenges st)"
  let ?tm = "\<lambda>h. if h \<in> set (map (timeout \<circ> snd) ?hit) then None else challengeTimers st h"
  from inv have d: "distinct (map fst (activeChallenges st))"
    and k: "\<forall>e\<in>set (activeChallenges st). fst e < nextUuid st \<and> timeout (snd e) = fst e"
    and t: "\<forall>h. challengeTimers st h \<noteq> None \<longleftrightarrow> h \<in> fst ` set (activeChallenges st)"
    by (simp_all add: challenge_inv_def)
  have st': "activeChallenges (fst (disconnect st x ts)) = ?keep"
    "challengeTimers (fst (disconnect st x ts)) = ?tm"
    "nextUuid (fst (disconnect st x ts)) = Suc (nextUuid st)"
    using Some by (simp_all add: disconnect_def Let_def)
  have hitkeys: "set (map (timeout \<circ> snd) ?hit) = fst ` set ?hit"
    using k by (auto simp: image_iff)
  have uniq: "\<And>e e'. e \<in> set (activeChallenges st) \<Longrightarrow> e' \<in> set (activeChallenges st) \<Longrightarrow>
                fst e = fst e' \<Longrightarrow> e = e'"
    using d by (metis eq_key_imp_eq_value prod.collapse)
  have tm: "\<forall>h. ?tm h \<noteq> None \<longleftrightarrow> h \<in> fst ` set ?keep"
  proof
    fix h
    show "?tm h \<noteq> None \<longleftrightarrow> h \<in> fst ` set ?keep"
    proof
      assume a: "?tm h \<noteq> None"
      then have nh: "h \<notin> fst ` set ?hit" and "challengeTimers st h \<noteq> None"
        unfolding hitkeys by (auto split: if_splits)
      with t obtain e where e: "e \<in> set (activeChallenges st)" "fst e = h" by auto
      have "\<not> involves x e"
      proof
        assume "involves x e"
        with e have "e \<in> set ?hit" by simp
        then have "fst e \<in> fst ` set ?hit" by (rule imageI)
        with nh e show False by simp
      qed
      with e have "e \<in> set ?keep" by simp
      then have "fst e \<in> fst ` set ?keep" by (rule imageI)
      with e show "h \<in> fst ` set ?keep" by simp
    next
      assume "h \<in> fst ` set ?keep"
      then obtain e where e: "e \<in> set (activeChallenges st)" "\<not> involves x e" "fst e = h"
        by auto
      have "h \<notin> fst ` set ?hit"
      proof
        assume "h \<in> fst ` set ?hit"
        then obtain e' where e': "e' \<in> set (activeChallenges st)" "involves x e'" "fst e' = h"
          by auto
        from uniq[OF e(1) e'(1)] e e' show False by auto
      qed
      moreover have "challengeTimers st h \<noteq> None" using t e by auto
      ultimately show "?tm h \<noteq> None" unfolding hitkeys by simp
    qed
  qed
  have "distinct (map fst ?keep)" using d by (rule distinct_map_filter)
  moreover have "\<forall>e\<in>set ?keep. fst e < Suc (nextUuid st) \<and> timeout (snd e) = fst e"
    using k by (auto simp: less_Suc_eq)
  ultimately show ?thesis
    unfolding challenge_inv_def st' using tm by blast
qed

lemma challenge_inv_step:
  assumes inv: "challenge_inv st" and st: "step st i = Some (st', evs)"
  shows "challenge_inv st'"
proof (cases i)
  case (JoinLobby s u n ts)
  with st have "st' = fst (joinLobby st s u n ts)" by auto
  then show ?thesis
    by (auto intro!: challenge_inv_same[OF inv] simp: joinLobby_def Let_def)
next
  case (SendLobbyMessage s m ts)
  with st have "st' = fst (sendLobbyMessage st s m ts)" by auto
  then show ?thesis
    by (auto intro!: challenge_inv_same[OF inv] simp: sendLobbyMessage_def Let_def
             split: option.splits)
next
  case (SendChallenge s t n)
  with st challenge_inv_sendChallenge[OF inv, of s t n] show ?thesis by auto
next
  case (AcceptChallenge s c f)
  show ?thesis
  proof (cases "map_of (activeChallenges st) c")
    case None
    with st AcceptChallenge inv show ?thesis by (auto simp: acceptChallenge_def)
  next
    case (Some ch)
    from challenge_inv_timeout_key[OF inv Some] have tk: "timeout ch = c" .
    from st AcceptChallenge Some tk
    have "activeChallenges st' = AList.delete c (activeChallenges st)"
      "challengeTimers st' = (challengeTimers st)(c := None)" "nextUuid st \<le> nextUuid st'"
      by (auto simp: acceptChallenge_def Let_def)
    then show ?thesis by (rule challenge_inv_remove[OF inv Some])
  qed
next
  case (DeclineChallenge s c f)
  show ?thesis
  proof (cases "map_of (activeChallenges st) c")
    case None
    with st DeclineChallenge inv show ?thesis by (auto simp: declineChallenge_def)
  next
    case (Some ch)
    from challenge_inv_timeout_key[OF inv Some] have tk: "timeout ch = c" .
    from st DeclineChallenge Some tk
    have "activeChallenges st' = AList.delete c (activeChallenges st)"
      "challengeTimers st' = (challengeTimers st)(c := None)" "nextUuid st \<le> nextUuid st'"
      by (auto simp: declineChallenge_def Let_def)
    then show ?thesis by (rule challenge_inv_remove[OF inv Some])
  qed
next
  case (JoinGame s g u n)
  with st have "st' = fst (joinGame st s g u n)" by auto
  then show ?thesis
    by (auto intro!: challenge_inv_same[OF inv] simp: joinGame_def Let_def
             split: option.splits)
next
  case (MakeMove s g col)
  with st makeMove_challenges[of st s g col st' evs] show ?thesis
    by (auto intro!: challenge_inv_same[OF inv])
next
  case (ForfeitGame s g)
  with st have "st' = fst (forfeitGame st s g)" by auto
  then show ?thesis
    by (auto intro!: challenge_inv_same[OF inv] simp: forfeitGame_def Let_def
             split: option.splits)
next
  case (SendGameMessage s g m ts)
  with st have "st' = fst (sendGameMessage st s g m ts)" by auto
  then show ?thesis
    by (auto intro!: challenge_inv_same[OF inv] simp: sendGameMessage_def Let_def
             split: option.splits)
next
  case (Disconnect s ts)
  with st challenge_inv_disconnect[OF inv, of s ts] show ?thesis by auto
next
  case (ChallengeTimer c)
  show ?thesis
  proof (cases "challengeTimers st c")
    case None
    with st ChallengeTimer inv show ?thesis by (auto simp: challengeTimerFires_def)
  next
    case (Some p)
    with inv obtain ch where ch: "map_of (activeChallenges st) c = Some ch"
      unfolding challenge_inv_def
      by (metis map_of_eq_None_iff not_None_eq option.distinct(1))
    from st ChallengeTimer Some
    have "activeChallenges st' = AList.delete c (activeChallenges st)"
      "challengeTimers st' = (challengeTimers st)(c := None)" "nextUuid st \<le> nextUuid st'"
      by (auto simp: challengeTimerFires_def split: prod.splits)
    then show ?thesis by (rule challenge_inv_remove[OF inv ch])
  qed
next
  case (CleanupTimer g)
  with st have "st' = fst (cleanupTimerFires st g)" by auto
  then show ?thesis
    by (auto intro!: challenge_inv_same[OF inv] simp: cleanupTimerFires_def)
qed

lemma reachable_challenge_inv: "reachable st \<Longrightarrow> challenge_inv st"
proof (induction rule: reachable.induct)
  case reachable_init
  show ?case by (simp add: challenge_inv_def init_def)
next
  case (reachable_step st i st' evs)
  then show ?case using challenge_inv_step by blast
qed

subsection \<open>A resolved challenge stays resolved\<close>

lemma gone_same:
  "gone st cid \<Longrightarrow> activeChallenges st' = activeChallenges st \<Longrightarrow>
   challengeTimers st' = challengeTimers st \<Longrightarrow> nextUuid st \<le> nextUuid st' \<Longrightarrow> gone st' cid"
  by (simp add: gone_def)

lemma gone_step:
  assumes g: "gone st cid" and st: "step st i = Some (st', evs)"
  shows "gone st' cid"
proof (cases i)
  case (JoinLobby s u n ts)
  with st have "st' = fst (joinLobby st s u n ts)" by auto
  then show ?thesis by (auto intro!: gone_same[OF g] simp: joinLobby_def Let_def)
next
  case (SendLobbyMessage s m ts)
  with st have "st' = fst (sendLobbyMessage st s m ts)" by auto
  then show ?thesis
    by (auto intro!: gone_same[OF g] simp: sendLobbyMessage_def Let_def split: option.splits)
next
  case (SendChallenge s t n)
  with st have "st' = fst (sendChallenge st s t n)" by auto
  then show ?thesis using g
    by (auto simp: gone_def sendChallenge_def Let_def update_conv split: option.splits)
next
  case (AcceptChallenge s c f)
  with st have "st' = fst (acceptChallenge st s c f)" by auto
  then show ?thesis using g
    by (auto simp: gone_def acceptChallenge_def Let_def delete_conv split: option.splits)
next
  case (DeclineChallenge s c f)
  with st have "st' = fst (declineChallenge st s c f)" by auto
  then show ?thesis using g
    by (auto simp: gone_def declineChallenge_def Let_def delete_conv split: option.splits)
next
  case (JoinGame s g' u n)
  with st have "st' = fst (joinGame st s g' u n)" by auto
  then show ?thesis
    by (auto intro!: gone_same[OF g] simp: joinGame_def Let_def split: option.splits)
next
  case (MakeMove s g' col)
  with st makeMove_challenges[of st s g' col st' evs] show ?thesis
    by (auto intro!: gone_same[OF g])
next
  case (ForfeitGame s g')
  with st have "st' = fst (forfeitGame st s g')" by auto
  then show ?thesis
    by (auto intro!: gone_same[OF g] simp: forfeitGame_def Let_def split: option.splits)
next
  case (SendGameMessage s g' m ts)
  with st have "st' = fst (sendGameMessage st s g' m ts)" by auto
  then show ?thesis
    by (auto intro!: gone_same[OF g] simp: sendGameMessage_def Let_def split: option.splits)
next
  case (Disconnect s ts)
  with st have "st' = fst (disconnect st s ts)" by auto
  then show ?thesis using g
    by (auto simp: gone_def disconnect_def Let_def map_of_filter_None split: option.splits)
next
  case (ChallengeTimer c)
  with st have "st' = fst (challengeTimerFires st c)" by auto
  then show ?thesis using g
    by (auto simp: gone_def challengeTimerFires_def delete_conv split: option.splits)
next
  case (CleanupTimer g')
  with st have "st' = fst (cleanupTimerFires st g')" by auto
  then show ?thesis by (auto intro!: gone_same[OF g] simp: cleanupTimerFires_def)
qed

lemma gone_run: "gone st cid \<Longrightarrow> run st ins = Some st' \<Longrightarrow> gone st' cid"
proof (induction ins arbitrary: st)
  case Nil
  then show ?case by simp
next
  case (Cons i ins)
  from Cons.prems(2) obtain st1 evs where st1: "step st i = Some (st1, evs)"
    and r: "run st1 ins = Some st'" by (auto split: option.splits)
  from Cons.IH[OF gone_step[OF Cons.prems(1) st1] r] show ?case .
qed

lemma gone_noop:
  assumes "gone st cid"
  shows "acceptChallenge st s cid f = (st, [])" "declineChallenge st s cid f = (st, [])"
    "challengeTimerFires st cid = (st, [])"
  using assms by (simp_all add: gone_def acceptChallenge_def declineChallenge_def
                    challengeTimerFires_def)

lemma resolves_gone:
  assumes inv: "challenge_inv st" and c: "map_of (activeChallenges st) cid = Some ch"
    and r: "resolves st cid i" and st: "step st i = Some (st', evs)"
  shows "gone st' cid"
proof -
  from inv c have lt: "cid < nextUuid st"
    by (auto simp: challenge_inv_def dest!: map_of_SomeD)
  from challenge_inv_timeout_key[OF inv c] have tk: "timeout ch = cid" .
  from challenge_inv_armed[OF inv c] obtain p where p: "challengeTimers st cid = Some p"
    by auto
  from inv have d: "distinct (map fst (activeChallenges st))" by (simp add: challenge_inv_def)
  show ?thesis
  proof (cases i)
    case (AcceptChallenge s c' f)
    with r st c tk lt show ?thesis
      by (auto simp: gone_def acceptChallenge_def Let_def delete_conv)
  next
    case (DeclineChallenge s c' f)
    with r st c tk lt show ?thesis
      by (auto simp: gone_def declineChallenge_def Let_def delete_conv)
  next
    case (ChallengeTimer c')
    with r st p lt show ?thesis
      by (auto simp: gone_def challengeTimerFires_def delete_conv split: prod.splits)
  next
    case (Disconnect x ts)
    with r c obtain user where u: "map_of (onlineUsers st) x = Some user"
      and inv': "involves x (cid, ch)" by (auto simp: involves_def)
    from c have mem: "(cid, ch) \<in> set (activeChallenges st)" by (rule map_of_SomeD)
    with inv' have "(cid, ch) \<in> set (filter (involves x) (activeChallenges st))" by simp
    then have "(timeout \<circ> snd) (cid, ch)
                 \<in> (timeout \<circ> snd) ` set (filter (involves x) (activeChallenges st))"
      by (rule imageI)
    then have hit: "cid \<in> set (map (timeout \<circ> snd) (filter (involves x) (activeChallenges st)))"
      using tk by simp
    have none: "map_of (filter (\<lambda>e. \<not> involves x e) (activeChallenges st)) cid = None"
      using inv' c by (simp add: map_of_filter_distinct[OF d])
    from st Disconnect u have
      "activeChallenges st' = filter (\<lambda>e. \<not> involves x e) (activeChallenges st)"
      "challengeTimers st' = (\<lambda>h. if h \<in> set (map (timeout \<circ> snd)
                                        (filter (involves x) (activeChallenges st)))
                                  then None else challengeTimers st h)"
      "nextUuid st' = Suc (nextUuid st)"
      by (auto simp: disconnect_def Let_def)
    with none hit lt show ?thesis by (simp add: gone_def)
  qed (use r in simp_all)
qed

lemma disconnect_notes:
  "length (filter (\<lambda>e. snd e = ChallengeTimeout) (snd (disconnect st x ts)))
     = (case map_of (onlineUsers st) x of
          None \<Rightarrow> 0
        | Some user \<Rightarrow> length (filter (involves x) (activeChallenges st)))"
  by (simp add: disconnect_def Let_def filter_map comp_def split: option.splits)

lemma forfeit_then_move:
  "map_of (activeGames st) gid = Some game \<Longrightarrow>
   makeMove (fst (forfeitGame st s gid)) s' gid col = Some (fst (forfeitGame st s gid), [])"
  by (rule makeMove_notfound) (simp add: forfeitGame_def Let_def delete_conv)

section \<open>The example states\<close>

lemma demoLobby_eq:
  "demoLobby =
     \<lparr>onlineUsers = [(''a'', \<lparr>socketId = ''a'', userId = ''1'', username = ''alice''\<rparr>),
                     (''b'', \<lparr>socketId = ''b'', userId = ''2'', username = ''bob''\<rparr>)],
      activeChallenges = [], activeGames = [], hasJoinedLobby = {''a'', ''b''},
      socketData = [''a'' \<mapsto> (''alice'', ''1''), ''b'' \<mapsto> (''bob'', ''2'')],
      rooms = {(''a'', MainRoom), (''b'', MainRoom)},
      challengeTimers = Map.empty, cleanupTimers = {}, nextUuid = 2\<rparr>"
  by (simp add: demoLobby_def joinLobby_def init_def Let_def insert_commute numeral_2_eq_2)

lemma demoPending_eq:
  "demoPending =
     demoLobby\<lparr>nextUuid := 3, challengeTimers := [2 \<mapsto> (''a'', ''b'')],
       activeChallenges :=
         [(2, \<lparr>challenge_id = 2, from_socket = ''a'', fromUsername = ''alice'',
               fromUserId = ''1'', to_socket = ''b'', toUsername = ''bob'',
               toUserId = ''2'', timeout = 2\<rparr>)]\<rparr>"
  by (simp add: demoPending_def demoLobby_eq sendChallenge_def Let_def eval_nat_numeral)

lemma demoPlaying_eq:
  "demoPlaying =
     demoLobby\<lparr>nextUuid := 4, activeGames := [(3, demoGame)]\<rparr>"
  by (simp add: demoPlaying_def demoPending_eq demoLobby_eq acceptChallenge_def Let_def
        demoGame_def eval_nat_numeral)

lemma reachable_fst: "reachable st \<Longrightarrow> step st i = Some r \<Longrightarrow> reachable (fst r)"
  by (cases r) (auto intro: reachable_step)

lemma reachable_demoLobby: "reachable demoLobby"
proof -
  have "reachable (fst (joinLobby init ''a'' ''1'' ''alice'' ''t0''))"
    by (rule reachable_fst[OF reachable_init, of "JoinLobby ''a'' ''1'' ''alice'' ''t0''"]) simp
  then show ?thesis
    unfolding demoLobby_def
    by (rule reachable_fst[of _ "JoinLobby ''b'' ''2'' ''bob'' ''t1''"]) simp
qed

lemma reachable_demoPending: "reachable demoPending"
  unfolding demoPending_def
  by (rule reachable_fst[OF reachable_demoLobby, of "SendChallenge ''a'' ''b'' ''bob''"]) simp

lemma reachable_demoPlaying: "reachable demoPlaying"
  unfolding demoPlaying_def
  by (rule reachable_fst[OF reachable_demoPending, of "AcceptChallenge ''b'' 2 ''a''"]) simp

lemma demo_game: "map_of (activeGames demoPlaying) 3 = Some demoGame"
  by (simp add: demoPlaying_eq)

lemma find0: "findRow createEmptyBoard 0 dropRows = 5"
  by (simp add: dropRows_def createEmptyBoard_def row_of_def cell_of_def numeral_eq_Suc)

lemma place0: "placeToken createEmptyBoard 5 0 Red
   = replicate 5 (replicate 7 None) @ [[Some Red, None, None, None, None, None, None]]"
  by (simp add: createEmptyBoard_def placeToken_def row_of_def numeral_eq_Suc)

lemma cw0: "checkWinner (replicate 5 (replicate 7 None) @ [[Some Red, None, None, None, None, None, None]]) 5 0 = Some (None, None)"
  by (simp add: checkWinner_def directions_def scan.simps row_of_def cell_of_def
          nth_append numeral_eq_Suc)

lemma full0: "\<not> isBoardFull (replicate 5 (replicate 7 None) @ [[Some Red, None, None, None, None, None, None]])"
  by (simp add: isBoardFull_def row_of_def numeral_eq_Suc)

lemma demo_red_moves:
  "makeMove demoPlaying ''a'' 3 0
     = Some (demoRedMoved,
             [(ToRoom (GameRoom 3),
               gameStateOf (demoGame\<lparr>board := placeToken createEmptyBoard 5 0 Red,
                                     currentTurn := Yellow\<rparr>))])"
proof -
  have g: "board demoGame = createEmptyBoard" "currentTurn demoGame = Red"
    "winner demoGame = None" "playerColorOf demoGame ''a'' = Red"
    by (simp_all add: demoGame_def playerColorOf_def)
  have cw: "checkWinner (placeToken createEmptyBoard 5 0 Red) 5 0 = Some (None, None)"
    unfolding place0 by (rule cw0)
  have nf: "\<not> isBoardFull (placeToken createEmptyBoard 5 0 Red)"
    unfolding place0 by (rule full0)
  have up: "AList.update 3 v (activeGames demoPlaying) = [(3, v)]" for v
    by (simp add: demoPlaying_eq)
  show ?thesis
    by (simp add: makeMove_def demo_game g find0 cw nf up Let_def demoRedMoved_def)
qed

lemma find1:
  "findRow (replicate 5 (replicate 7 None) @ [[Some Red, None, None, None, None, None, None]])
     1 dropRows = 5"
  by (simp add: dropRows_def row_of_def cell_of_def nth_append numeral_eq_Suc)

lemma place1:
  "placeToken (replicate 5 (replicate 7 None) @ [[Some Red, None, None, None, None, None, None]])
     5 1 Yellow
   = replicate 5 (replicate 7 None) @ [[Some Red, Some Yellow, None, None, None, None, None]]"
  by (simp add: placeToken_def row_of_def numeral_eq_Suc)

lemma cw1:
  "checkWinner (replicate 5 (replicate 7 None)
                  @ [[Some Red, Some Yellow, None, None, None, None, None]]) 5 1
     = Some (None, None)"
  by (simp add: checkWinner_def directions_def scan.simps row_of_def cell_of_def
          nth_append numeral_eq_Suc)

lemma full1:
  "\<not> isBoardFull (replicate 5 (replicate 7 None)
                     @ [[Some Red, Some Yellow, None, None, None, None, None]])"
  by (simp add: isBoardFull_def row_of_def numeral_eq_Suc)

lemma sendChallenge_absent:
  "map_of (onlineUsers st) s = None \<or> map_of (onlineUsers st) t = None \<Longrightarrow>
   sendChallenge st s t n = (st, [])"
  by (auto simp: sendChallenge_def split: option.splits)

lemma sendChallenge_present:
  "map_of (onlineUsers st) s = Some a \<Longrightarrow> map_of (onlineUsers st) t = Some b \<Longrightarrow>
   snd (sendChallenge st s t n)
     = [(ToRoom (SocketRoom t), ChallengeReceived s (username a) t (nextUuid st))]
   \<and> map_of (activeChallenges (fst (sendChallenge st s t n))) (nextUuid st)
       = Some \<lparr>challenge_id = nextUuid st, from_socket = s, fromUsername = username a,
               fromUserId = userId a, to_socket = t, toUsername = username b,
               toUserId = userId b, timeout = nextUuid st\<rparr>
   \<and> (\<forall>k. k \<noteq> nextUuid st \<longrightarrow>
         map_of (activeChallenges (fst (sendChallenge st s t n))) k
           = map_of (activeChallenges st) k)
   \<and> challengeTimers (fst (sendChallenge st s t n)) (nextUuid st) = Some (s, t)"
  by (simp add: sendChallenge_def Let_def update_conv)

section \<open>Auxiliary facts for the claims\<close>

lemma dropRows_range: "r \<in> set dropRows \<longleftrightarrow> 0 \<le> r \<and> r < 6"
  unfolding dropRows_def by (simp; arith)

subsection \<open>Game ids\<close>

lemma makeMove_games:
  assumes "makeMove st s g col = Some (st', evs)"
  shows "nextUuid st' = nextUuid st \<and>
         (activeGames st' = activeGames st
          \<or> (\<exists>game game'. map_of (activeGames st) g = Some game
                \<and> activeGames st' = AList.update g game' (activeGames st)))"
  using makeMove_cases[where st=st and gid=g and s=s and col=col] assms by auto

lemma update_existing_keys:
  "map_of xs k = Some v \<Longrightarrow> fst ` set (AList.update k v' xs) = fst ` set xs"
  by (auto simp: dom_update dest!: map_of_SomeD intro: rev_image_eqI)

lemma games_inv_keys:
  assumes inv: "games_inv st"
    and sub: "fst ` set (activeGames st') \<subseteq> fst ` set (activeGames st) \<union> {nextUuid st}"
    and nx: "nextUuid st' = Suc (nextUuid st)
       \<or> (nextUuid st' = nextUuid st \<and> fst ` set (activeGames st') \<subseteq> fst ` set (activeGames st))"
  shows "games_inv st'"
  unfolding games_inv_def
proof
  fix e assume e: "e \<in> set (activeGames st')"
  then have k: "fst e \<in> fst ` set (activeGames st')" by (rule imageI)
  have old: "fst e < nextUuid st" if "fst e \<in> fst ` set (activeGames st)"
    using that inv by (auto simp: games_inv_def)
  from nx show "fst e < nextUuid st'"
  proof
    assume n: "nextUuid st' = Suc (nextUuid st)"
    from k sub have "fst e \<in> fst ` set (activeGames st) \<or> fst e = nextUuid st" by blast
    then show ?thesis
    proof
      assume "fst e \<in> fst ` set (activeGames st)"
      from old[OF this] n show ?thesis by simp
    next
      assume "fst e = nextUuid st"
      with n show ?thesis by simp
    qed
  next
    assume a: "nextUuid st' = nextUuid st \<and> fst ` set (activeGames st') \<subseteq> fst ` set (activeGames st)"
    with k have "fst e \<in> fst ` set (activeGames st)" by blast
    from old[OF this] a show ?thesis by simp
  qed
qed

lemma games_inv_step:
  assumes inv: "games_inv st" and st: "step st i = Some (st', evs)"
  shows "games_inv st'"
proof -
  note keys = games_inv_keys[OF inv]
  show ?thesis
  proof (cases i)
    case (JoinLobby s u n ts)
    with st have "st' = fst (joinLobby st s u n ts)" by auto
    then show ?thesis by (intro keys) (auto simp: joinLobby_def Let_def)
  next
    case (SendLobbyMessage s m ts)
    with st have "st' = fst (sendLobbyMessage st s m ts)" by auto
    then show ?thesis
      by (intro keys) (auto simp: sendLobbyMessage_def Let_def split: option.splits)
  next
    case (SendChallenge s t n)
    with st have "st' = fst (sendChallenge st s t n)" by auto
    then show ?thesis
      by (intro keys) (auto simp: sendChallenge_def Let_def split: option.splits)
  next
    case (AcceptChallenge s c f)
    with st have "st' = fst (acceptChallenge st s c f)" by auto
    then show ?thesis
      by (intro keys) (auto simp: acceptChallenge_def Let_def dom_update split: option.splits)
  next
    case (DeclineChallenge s c f)
    with st have "st' = fst (declineChallenge st s c f)" by auto
    then show ?thesis
      by (intro keys) (auto simp: declineChallenge_def Let_def split: option.splits)
  next
    case (JoinGame s g u n)
    with st have "st' = fst (joinGame st s g u n)" by auto
    then show ?thesis
      by (intro keys)
         (auto simp: joinGame_def Let_def update_existing_keys split: option.splits if_splits)
  next
    case (MakeMove s g col)
    with st have mm: "makeMove st s g col = Some (st', evs)" by simp
    from makeMove_games[OF mm] have nx: "nextUuid st' = nextUuid st"
      and alt: "activeGames st' = activeGames st
          \<or> (\<exists>game game'. map_of (activeGames st) g = Some game
                \<and> activeGames st' = AList.update g game' (activeGames st))" by simp_all
    from alt have eq: "fst ` set (activeGames st') = fst ` set (activeGames st)"
    proof
      assume "activeGames st' = activeGames st"
      then show ?thesis by simp
    next
      assume "\<exists>game game'. map_of (activeGames st) g = Some game
                \<and> activeGames st' = AList.update g game' (activeGames st)"
      then obtain game game' where "map_of (activeGames st) g = Some game"
        "activeGames st' = AList.update g game' (activeGames st)" by blast
      then show ?thesis by (simp add: update_existing_keys)
    qed
    show ?thesis by (rule keys) (auto simp: nx eq)
  next
    case (ForfeitGame s g)
    with st have "st' = fst (forfeitGame st s g)" by auto
    then show ?thesis
      using dom_delete_subset[of g "activeGames st"]
      by (intro keys) (auto simp: forfeitGame_def Let_def split: option.splits)
  next
    case (SendGameMessage s g m ts)
    with st have "st' = fst (sendGameMessage st s g m ts)" by auto
    then show ?thesis
      by (intro keys) (auto simp: sendGameMessage_def Let_def split: option.splits)
  next
    case (Disconnect s ts)
    with st have "st' = fst (disconnect st s ts)" by auto
    then show ?thesis
      by (intro keys) (auto simp: disconnect_def Let_def split: option.splits)
  next
    case (ChallengeTimer c)
    with st have "st' = fst (challengeTimerFires st c)" by auto
    then show ?thesis
      by (intro keys) (auto simp: challengeTimerFires_def split: option.splits)
  next
    case (CleanupTimer g)
    with st have "st' = fst (cleanupTimerFires st g)" by auto
    then show ?thesis
      using dom_delete_subset[of g "activeGames st"]
      by (intro keys) (auto simp: cleanupTimerFires_def)
  qed
qed

lemma reachable_games_inv: "reachable st \<Longrightarrow> games_inv st"
proof (induction rule: reachable.induct)
  case reachable_init
  show ?case by (simp add: games_inv_def init_def)
next
  case (reachable_step st i st' evs)
  then show ?case using games_inv_step by blast
qed

lemma game_gone_step:
  assumes g: "game_gone st gid" and st: "step st i = Some (st', evs)"
  shows "game_gone st' gid"
proof -
  have same: "game_gone st' gid"
    if "activeGames st' = activeGames st" "nextUuid st \<le> nextUuid st'" for st'
    using g that by (simp add: game_gone_def)
  show ?thesis
  proof (cases i)
    case (JoinLobby s u n ts)
    with st have "st' = fst (joinLobby st s u n ts)" by auto
    then show ?thesis by (intro same) (auto simp: joinLobby_def Let_def)
  next
    case (SendLobbyMessage s m ts)
    with st have "st' = fst (sendLobbyMessage st s m ts)" by auto
    then show ?thesis
      by (intro same) (auto simp: sendLobbyMessage_def Let_def split: option.splits)
  next
    case (SendChallenge s t n)
    with st have "st' = fst (sendChallenge st s t n)" by auto
    then show ?thesis
      by (intro same) (auto simp: sendChallenge_def Let_def split: option.splits)
  next
    case (AcceptChallenge s c f)
    with st have "st' = fst (acceptChallenge st s c f)" by auto
    then show ?thesis using g
      by (auto simp: game_gone_def acceptChallenge_def Let_def update_conv split: option.splits)
  next
    case (DeclineChallenge s c f)
    with st have "st' = fst (declineChallenge st s c f)" by auto
    then show ?thesis
      by (intro same) (auto simp: declineChallenge_def Let_def split: option.splits)
  next
    case (JoinGame s g' u n)
    with st have "st' = fst (joinGame st s g' u n)" by auto
    then show ?thesis using g
      by (auto simp: game_gone_def joinGame_def Let_def update_conv
               split: option.splits if_splits)
  next
    case (MakeMove s g' col)
    with st makeMove_games[of st s g' col st' evs] g show ?thesis
      by (auto simp: game_gone_def update_conv)
  next
    case (ForfeitGame s g')
    with st have "st' = fst (forfeitGame st s g')" by auto
    then show ?thesis using g
      by (auto simp: game_gone_def forfeitGame_def Let_def delete_conv split: option.splits)
  next
    case (SendGameMessage s g' m ts)
    with st have "st' = fst (sendGameMessage st s g' m ts)" by auto
    then show ?thesis
      by (intro same) (auto simp: sendGameMessage_def Let_def split: option.splits)
  next
    case (Disconnect s ts)
    with st have "st' = fst (disconnect st s ts)" by auto
    then show ?thesis
      by (intro same) (auto simp: disconnect_def Let_def split: option.splits)
  next
    case (ChallengeTimer c)
    with st have "st' = fst (challengeTimerFires st c)" by auto
    then show ?thesis
      by (intro same) (auto simp: challengeTimerFires_def split: option.splits)
  next
    case (CleanupTimer g')
    with st have "st' = fst (cleanupTimerFires st g')" by auto
    then show ?thesis using g
      by (auto simp: game_gone_def cleanupTimerFires_def delete_conv)
  qed
qed

lemma game_gone_run: "game_gone st gid \<Longrightarrow> run st ins = Some st' \<Longrightarrow> game_gone st' gid"
proof (induction ins arbitrary: st)
  case Nil
  then show ?case by simp
next
  case (Cons i ins)
  from Cons.prems(2) obtain st1 evs where st1: "step st i = Some (st1, evs)"
    and r: "run st1 ins = Some st'" by (auto split: option.splits)
  from Cons.IH[OF game_gone_step[OF Cons.prems(1) st1] r] show ?case .
qed

text \<open>
  What a forfeit by one of a game's two sockets does: one event, addressed to the
  room of the other seat's socket id; the game is deleted in the same step; and a
  later move on that game id finds nothing.
\<close>

lemma forfeitGame_effect:
  assumes r: "reachable st" and g: "map_of (activeGames st) gid = Some game"
    and party: "s = socketId (red (players game)) \<or> s = socketId (yellow (players game))"
  shows "\<exists>st' me opp.
           forfeitGame st s gid
             = (st', [(ToRoom (SocketRoom (socketId opp)), OpponentForfeited (username me))]) \<and>
           ((me, opp) = (red (players game), yellow (players game))
            \<or> (me, opp) = (yellow (players game), red (players game))) \<and>
           socketId me = s \<and>
           (socketId (red (players game)) \<noteq> socketId (yellow (players game))
              \<longrightarrow> socketId opp \<noteq> s) \<and>
           st' = st\<lparr>activeGames := AList.delete gid (activeGames st)\<rparr> \<and>
           map_of (activeGames st') gid = None \<and>
           (\<forall>ins st2 s' col. run st' ins = Some st2 \<longrightarrow>
              makeMove st2 s' gid col = Some (st2, []))"
proof -
  let ?st' = "st\<lparr>activeGames := AList.delete gid (activeGames st)\<rparr>"
  have none: "map_of (activeGames ?st') gid = None" by (simp add: delete_conv)
  from g have "(gid, game) \<in> set (activeGames st)" by (rule map_of_SomeD)
  with reachable_games_inv[OF r] have "gid < nextUuid st" by (auto simp: games_inv_def)
  with none have gg: "game_gone ?st' gid" by (simp add: game_gone_def)
  have mv: "\<forall>ins st2 s' col. run ?st' ins = Some st2 \<longrightarrow>
              makeMove st2 s' gid col = Some (st2, [])"
  proof (intro allI impI)
    fix ins st2 s' col assume "run ?st' ins = Some st2"
    from game_gone_run[OF gg this] have "map_of (activeGames st2) gid = None"
      by (simp add: game_gone_def)
    then show "makeMove st2 s' gid col = Some (st2, [])" by (rule makeMove_notfound)
  qed
  show ?thesis
  proof (cases "socketId (red (players game)) = s")
    case True
    have "forfeitGame st s gid
            = (?st', [(ToRoom (SocketRoom (socketId (yellow (players game)))),
                       OpponentForfeited (username (red (players game))))])"
      using g True by (simp add: forfeitGame_def Let_def)
    with True none mv show ?thesis
      by (intro exI[of _ ?st'] exI[of _ "red (players game)"]
            exI[of _ "yellow (players game)"]) auto
  next
    case False
    with party have y: "socketId (yellow (players game)) = s" by auto
    have "forfeitGame st s gid
            = (?st', [(ToRoom (SocketRoom (socketId (red (players game)))),
                       OpponentForfeited (username (yellow (players game))))])"
      using g False by (simp add: forfeitGame_def Let_def)
    with False y none mv show ?thesis
      by (intro exI[of _ ?st'] exI[of _ "yellow (players game)"]
            exI[of _ "red (players game)"]) auto
  qed
qed

lemma demoHijacked_eq:
  "demoHijacked =
     demoPlaying\<lparr>rooms := insert (''b'', GameRoom 3) (rooms demoPlaying),
       activeGames :=
         [(3, demoGame\<lparr>players :=
                 \<lparr>red = \<lparr>socketId = ''b'', userId = ''1'', username = ''alice''\<rparr>,
                  yellow = \<lparr>socketId = ''b'', userId = ''2'', username = ''bob''\<rparr>\<rparr>\<rparr>)]\<rparr>"
  by (simp add: demoHijacked_def joinGame_def demoPlaying_eq demoGame_def Let_def)

lemma demoListening_eq:
  "demoListening = demoPlaying\<lparr>rooms := insert (''a'', SocketRoom ''b'') (rooms demoPlaying)\<rparr>"
  by (simp add: demoListening_def joinGame_def Let_def)

lemma reachable_demoHijacked: "reachable demoHijacked"
  unfolding demoHijacked_def
  by (rule reachable_fst[OF reachable_demoPlaying, of "JoinGame ''b'' (GameRoom 3) ''1'' ''bob''"])
     simp

lemma reachable_demoListening: "reachable demoListening"
  unfolding demoListening_def
  by (rule reachable_fst[OF reachable_demoPlaying,
        of "JoinGame ''a'' (SocketRoom ''b'') ''1'' ''alice''"]) simp

section \<open>Claims about the board engine\<close>

text \<open>
  Claim C3.  For a cell \<open>(row, col)\<close> of the grid, \<open>checkWinner\<close> returns, and what it
  returns is decided by the four axes through that cell: horizontal (step \<open>(0, 1)\<close>),
  vertical (step \<open>(1, 0)\<close>) and the two diagonals (steps \<open>(1, 1)\<close> and \<open>(1, -1)\<close>).
  It returns no winner and no cells exactly when on none of these four axes four
  cells in a line through \<open>(row, col)\<close> hold the colour found there.  Otherwise it
  returns that colour and, for one of the four axes, the merged run of that axis:
  the cell itself, then the cells holding the colour in the axis's direction up to
  the first one that does not, then those in the opposite direction.  That run has at
  least four cells and is as long as the board allows, so a fifth cell in line is
  listed too.
\<close>

theorem checkWinner_detects_runs:
  assumes "0 \<le> row" "row < 6" "0 \<le> col" "col < 7"
  shows "\<exists>w cs. checkWinner b row col = Some (w, cs) \<and>
           (w = None \<longrightarrow> cs = None \<and>
              (\<forall>p. holds b row col p \<longrightarrow>
                 \<not> fourThrough b p (0, 1) row col \<and> \<not> fourThrough b p (1, 0) row col \<and>
                 \<not> fourThrough b p (1, 1) row col \<and> \<not> fourThrough b p (1, - 1) row col)) \<and>
           (\<forall>p. w = Some p \<longrightarrow> holds b row col p \<and>
              (\<exists>d n1 n2.
                 (d = (0, 1) \<or> d = (1, 0) \<or> d = (1, 1) \<or> d = (1, - 1)) \<and>
                 cs = Some (mergedRun row col d n1 (- fst d, - snd d) n2) \<and>
                 fourThrough b p d row col \<and>
                 4 \<le> length (mergedRun row col d n1 (- fst d, - snd d) n2) \<and>
                 maxRun b p row col d n1 \<and> maxRun b p row col (- fst d, - snd d) n2))"
proof -
  have len: "length (mergedRun row col d1 n1 d2 n2) = 1 + n1 + n2" for d1 d2 n1 n2
    by (simp add: mergedRun_def ray_def)
  from checkWinner_cases[OF assms, of b] show ?thesis
  proof
    assume none: "checkWinner b row col = Some (None, None) \<and>
      (\<forall>p. holds b row col p \<longrightarrow> (\<forall>a\<in>set directions. \<not> fourThrough b p (fst a) row col))"
    then have "\<forall>p. holds b row col p \<longrightarrow>
                 \<not> fourThrough b p (0, 1) row col \<and> \<not> fourThrough b p (1, 0) row col \<and>
                 \<not> fourThrough b p (1, 1) row col \<and> \<not> fourThrough b p (1, - 1) row col"
      by (simp add: directions_def)
    with none show ?thesis by simp
  next
    assume "\<exists>p. holds b row col p \<and> (\<exists>a\<in>set directions. \<exists>n1 n2.
            checkWinner b row col
              = Some (Some p, Some (mergedRun row col (fst a) n1 (snd a) n2))
            \<and> fourThrough b p (fst a) row col \<and> 4 \<le> 1 + n1 + n2
            \<and> maxRun b p row col (fst a) n1 \<and> maxRun b p row col (snd a) n2)"
    then obtain p a n1 n2 where p: "holds b row col p" and a: "a \<in> set directions"
      and cw: "checkWinner b row col
                 = Some (Some p, Some (mergedRun row col (fst a) n1 (snd a) n2))"
      and four: "fourThrough b p (fst a) row col" and long: "4 \<le> 1 + n1 + n2"
      and m1: "maxRun b p row col (fst a) n1" and m2: "maxRun b p row col (snd a) n2"
      by blast
    define d where "d = fst a"
    from a have axis: "d = (0, 1) \<or> d = (1, 0) \<or> d = (1, 1) \<or> d = (1, - 1)"
      and opp: "snd a = (- fst d, - snd d)"
      by (auto simp: directions_def d_def)
    have cw': "checkWinner b row col
                 = Some (Some p, Some (mergedRun row col d n1 (- fst d, - snd d) n2))"
      using cw opp by (simp add: d_def)
    have m2': "maxRun b p row col (- fst d, - snd d) n2" using m2 opp by simp
    have four': "fourThrough b p d row col" using four by (simp add: d_def)
    have m1': "maxRun b p row col d n1" using m1 by (simp add: d_def)
    have long': "4 \<le> length (mergedRun row col d n1 (- fst d, - snd d) n2)"
      using long by (simp add: len)
    have run: "\<exists>d' k1 k2.
                 (d' = (0, 1) \<or> d' = (1, 0) \<or> d' = (1, 1) \<or> d' = (1, - 1)) \<and>
                 Some (mergedRun row col d n1 (- fst d, - snd d) n2)
                   = Some (mergedRun row col d' k1 (- fst d', - snd d') k2) \<and>
                 fourThrough b p d' row col \<and>
                 4 \<le> length (mergedRun row col d' k1 (- fst d', - snd d') k2) \<and>
                 maxRun b p row col d' k1 \<and> maxRun b p row col (- fst d', - snd d') k2"
      using axis four' long' m1' m2'
      by (intro exI[of _ d] exI[of _ n1] exI[of _ n2] conjI refl)
    show ?thesis
      unfolding cw' using p run by simp
  qed
qed

text \<open>
  The theorem at the four example boards, one per axis; on each, red's last token
  completes a line and red is reported.  Evaluating \<open>checkWinner\<close> there gives the
  cells as well: all five of the bottom row, and the four of the column and of each
  diagonal.
\<close>

theorem checkWinner_detects_runs_witness:
  "(0::int) \<le> 5 \<and> (5::int) < 6 \<and> (0::int) \<le> 2 \<and> (2::int) < 7 \<and>
   (\<exists>cs. checkWinner demoHorizontal 5 2 = Some (Some Red, cs)) \<and>
   (\<exists>cs. checkWinner demoVertical 2 0 = Some (Some Red, cs)) \<and>
   (\<exists>cs. checkWinner demoDiagRight 2 0 = Some (Some Red, cs)) \<and>
   (\<exists>cs. checkWinner demoDiagLeft 2 6 = Some (Some Red, cs)) \<and>
   checkWinner demoHorizontal 5 2
     = Some (Some Red, Some [(5, 2), (5, 3), (5, 4), (5, 1), (5, 0)]) \<and>
   checkWinner demoVertical 2 0 = Some (Some Red, Some [(2, 0), (3, 0), (4, 0), (5, 0)]) \<and>
   checkWinner demoDiagRight 2 0 = Some (Some Red, Some [(2, 0), (3, 1), (4, 2), (5, 3)]) \<and>
   checkWinner demoDiagLeft 2 6 = Some (Some Red, Some [(2, 6), (3, 5), (4, 4), (5, 3)])"
proof -
  have win: "\<exists>cs. checkWinner b r c = Some (Some Red, cs)"
    if rng: "0 \<le> r" "r < 6" "0 \<le> c" "c < 7" and h: "holds b r c Red"
      and f: "fourThrough b Red (0, 1) r c \<or> fourThrough b Red (1, 0) r c \<or>
              fourThrough b Red (1, 1) r c \<or> fourThrough b Red (1, - 1) r c"
    for b r c
  proof -
    from checkWinner_detects_runs[OF rng, of b]
    obtain w cs where cw: "checkWinner b r c = Some (w, cs)"
      and none: "w = None \<longrightarrow> cs = None \<and>
              (\<forall>p. holds b r c p \<longrightarrow>
                 \<not> fourThrough b p (0, 1) r c \<and> \<not> fourThrough b p (1, 0) r c \<and>
                 \<not> fourThrough b p (1, 1) r c \<and> \<not> fourThrough b p (1, - 1) r c)"
      and some: "\<forall>p. w = Some p \<longrightarrow> holds b r c p \<and>
              (\<exists>d n1 n2.
                 (d = (0, 1) \<or> d = (1, 0) \<or> d = (1, 1) \<or> d = (1, - 1)) \<and>
                 cs = Some (mergedRun r c d n1 (- fst d, - snd d) n2) \<and>
                 fourThrough b p d r c \<and>
                 4 \<le> length (mergedRun r c d n1 (- fst d, - snd d) n2) \<and>
                 maxRun b p r c d n1 \<and> maxRun b p r c (- fst d, - snd d) n2)"
      by (elim exE conjE) (rule that)
    have "w \<noteq> None"
    proof
      assume "w = None"
      with none have "\<forall>p. holds b r c p \<longrightarrow>
                 \<not> fourThrough b p (0, 1) r c \<and> \<not> fourThrough b p (1, 0) r c \<and>
                 \<not> fourThrough b p (1, 1) r c \<and> \<not> fourThrough b p (1, - 1) r c" by simp
      from this[THEN spec, THEN mp, OF h] f show False by simp
    qed
    then obtain p where p: "w = Some p" by auto
    from some[THEN spec, THEN mp, OF p] have "holds b r c p" by (rule conjunct1)
    with h have "p = Red" by (auto simp: holds_def split: option.splits)
    with cw p show ?thesis by simp
  qed
  have h: "(0::int) \<le> 5" "(5::int) < 6" "(0::int) \<le> 2" "(2::int) < 7" by simp_all
  have w1: "\<exists>cs. checkWinner demoHorizontal 5 2 = Some (Some Red, cs)"
    by (rule win) (simp_all add: holds_def fourThrough_def demoHorizontal_def row_of_def
                     cell_of_def)
  have w2: "\<exists>cs. checkWinner demoVertical 2 0 = Some (Some Red, cs)"
    by (rule win) (simp_all add: holds_def fourThrough_def demoVertical_def row_of_def
                     cell_of_def)
  have w3: "\<exists>cs. checkWinner demoDiagRight 2 0 = Some (Some Red, cs)"
    by (rule win) (simp_all add: holds_def fourThrough_def demoDiagRight_def row_of_def
                     cell_of_def)
  have w4: "\<exists>cs. checkWinner demoDiagLeft 2 6 = Some (Some Red, cs)"
    by (rule win) (simp_all add: holds_def fourThrough_def demoDiagLeft_def row_of_def
                     cell_of_def)
  have e1: "checkWinner demoHorizontal 5 2
              = Some (Some Red, Some [(5, 2), (5, 3), (5, 4), (5, 1), (5, 0)])"
    by (simp add: checkWinner_def directions_def scan.simps row_of_def cell_of_def
          demoHorizontal_def)
  have e2: "checkWinner demoVertical 2 0
              = Some (Some Red, Some [(2, 0), (3, 0), (4, 0), (5, 0)])"
    by (simp add: checkWinner_def directions_def scan.simps row_of_def cell_of_def
          demoVertical_def)
  have e3: "checkWinner demoDiagRight 2 0
              = Some (Some Red, Some [(2, 0), (3, 1), (4, 2), (5, 3)])"
    by (simp add: checkWinner_def directions_def scan.simps row_of_def cell_of_def
          demoDiagRight_def)
  have e4: "checkWinner demoDiagLeft 2 6
              = Some (Some Red, Some [(2, 6), (3, 5), (4, 4), (5, 3)])"
    by (simp add: checkWinner_def directions_def scan.simps row_of_def cell_of_def
          demoDiagLeft_def)
  from h w1 w2 w3 w4 e1 e2 e3 e4 show ?thesis by (intro conjI)
qed

text \<open>
  Claim C7.  A board reached from the empty board by legal drops has 42 cells, and
  \<open>isBoardFull\<close>, which reads the top row only, is true exactly when every one of
  them is occupied.
\<close>

theorem isBoardFull_iff_all_cells:
  assumes "legal_board b"
  shows "length (concat b) = 42 \<and> (isBoardFull b \<longleftrightarrow> list_all (\<lambda>cell. cell \<noteq> None) (concat b))"
proof -
  from legal_board_inv[OF assms] have wf: "wf_board b" and g: "gravity b" by auto
  from wf obtain r0 r1 r2 r3 r4 r5 where b: "b = [r0, r1, r2, r3, r4, r5]"
    by (auto simp: wf_board_def length_Suc_conv numeral_eq_Suc)
  have len: "length (concat b) = 42" using wf by (simp add: b wf_board_def)
  have all_iff: "list_all (\<lambda>cell. cell \<noteq> None) (concat b) \<longleftrightarrow> (\<forall>r<6. \<forall>c<7. b ! r ! c \<noteq> None)"
  proof -
    have "list_all (\<lambda>cell. cell \<noteq> None) (concat b) \<longleftrightarrow> (\<forall>rw\<in>set b. \<forall>x\<in>set rw. x \<noteq> None)"
      by (auto simp: list_all_iff)
    also have "\<dots> \<longleftrightarrow> (\<forall>r<6. \<forall>x\<in>set (b ! r). x \<noteq> None)"
      using wf by (simp add: wf_board_def all_set_conv_all_nth)
    also have "\<dots> \<longleftrightarrow> (\<forall>r<6. \<forall>c<7. b ! r ! c \<noteq> None)"
      using wf by (auto simp: wf_board_def all_set_conv_all_nth list_all_iff)
    finally show ?thesis .
  qed
  have "isBoardFull b \<longleftrightarrow> (\<forall>r<6. \<forall>c<7. b ! r ! c \<noteq> None)"
  proof
    assume full: "isBoardFull b"
    show "\<forall>r<6. \<forall>c<7. b ! r ! c \<noteq> None"
    proof (intro allI impI)
      fix r c :: nat assume r: "r < 6" and c: "c < 7"
      from full c have "b ! 0 ! c \<noteq> None" using isBoardFull_top[OF wf] by simp
      then have "\<not> emptyAt b 0 (int c)" using wf_emptyAt[OF wf, of 0 c] c by simp
      from gravity_column[OF g this c r] show "b ! r ! c \<noteq> None"
        using wf_emptyAt[OF wf r c] by simp
    qed
  next
    assume "\<forall>r<6. \<forall>c<7. b ! r ! c \<noteq> None"
    then show "isBoardFull b" using isBoardFull_top[OF wf] by simp
  qed
  with len all_iff show ?thesis by simp
qed


theorem isBoardFull_iff_all_cells_witness:
  "legal_board (placeToken createEmptyBoard 5 3 Red) \<and>
   length (concat (placeToken createEmptyBoard 5 3 Red)) = 42 \<and>
   (isBoardFull (placeToken createEmptyBoard 5 3 Red)
      \<longleftrightarrow> list_all (\<lambda>cell. cell \<noteq> None) (concat (placeToken createEmptyBoard 5 3 Red)))"
proof -
  have f: "findRow createEmptyBoard 3 dropRows = 5"
    by (simp add: dropRows_def createEmptyBoard_def row_of_def cell_of_def numeral_eq_Suc)
  have l: "legal_board (placeToken createEmptyBoard 5 3 Red)"
    by (rule legal_drop[OF legal_empty _ _ f]) simp_all
  from isBoardFull_iff_all_cells[OF l] l show ?thesis by simp
qed
section \<open>Claims about the handlers\<close>

text \<open>
  Claim C1.  A move by the player whose turn it is, in an unfinished game, into a
  column \<open>0 \<le> col < 7\<close>: if the column has an empty cell, the move is applied and
  the new board is the old one with the player's colour written into the empty cell
  of greatest row index, every other cell unchanged; if the column has no empty cell,
  the move is rejected with "Column is full!" and the state is the old state.
\<close>

theorem makeMove_drops_lowest_empty:
  assumes g: "map_of (activeGames st) gid = Some game"
    and turn: "currentTurn game = playerColorOf game s"
    and nw: "winner game = None"
    and col: "0 \<le> col" "col < 7"
  shows "((\<exists>r. 0 \<le> r \<and> r < 6 \<and> emptyAt (board game) r col) \<longrightarrow>
            (\<exists>row st' evs game'.
               makeMove st s gid col = Some (st', evs) \<and>
               0 \<le> row \<and> row < 6 \<and> emptyAt (board game) row col \<and>
               (\<forall>r. row < r \<and> r < 6 \<longrightarrow> \<not> emptyAt (board game) r col) \<and>
               map_of (activeGames st') gid = Some game' \<and>
               board game' = (board game)[nat row :=
                                (board game ! nat row)[nat col := Some (currentTurn game)]]))
       \<and> (\<not> (\<exists>r. 0 \<le> r \<and> r < 6 \<and> emptyAt (board game) r col) \<longrightarrow>
            makeMove st s gid col = Some (st, [(ToSocket s, InvalidMove ''Column is full!'')]))"
proof (cases "findRow (board game) col dropRows = -1")
  case True
  then have "\<not> (\<exists>r. 0 \<le> r \<and> r < 6 \<and> emptyAt (board game) r col)"
    unfolding findRow_full using dropRows_range by blast
  with makeMove_column_full[OF g turn nw col True] show ?thesis by blast
next
  case False
  let ?row = "findRow (board game) col dropRows"
  from findRow_dropRows[OF refl False]
  have rng: "0 \<le> ?row" "?row < 6" and e: "emptyAt (board game) ?row col"
    and above: "\<forall>r. ?row < r \<and> r < 6 \<longrightarrow> \<not> emptyAt (board game) r col" by auto
  from makeMove_accept[OF g turn nw col refl False]
  obtain game' evs where
    mm: "makeMove st s gid col
           = Some (st\<lparr>activeGames := AList.update gid game' (activeGames st),
                      cleanupTimers := (if winner game' = None then cleanupTimers st
                                        else insert gid (cleanupTimers st))\<rparr>, evs)"
    and b: "board game' = placeToken (board game) ?row col (currentTurn game)"
    by (elim exE conjE) (rule that)
  let ?st' = "st\<lparr>activeGames := AList.update gid game' (activeGames st),
                 cleanupTimers := (if winner game' = None then cleanupTimers st
                                   else insert gid (cleanupTimers st))\<rparr>"
  have look: "map_of (activeGames ?st') gid = Some game'" by (simp add: update_conv)
  have b': "board game' = (board game)[nat ?row :=
                            (board game ! nat ?row)[nat col := Some (currentTurn game)]]"
    unfolding b by (rule placeToken_eq[OF e])
  have "\<exists>row st' evs game'.
               makeMove st s gid col = Some (st', evs) \<and>
               0 \<le> row \<and> row < 6 \<and> emptyAt (board game) row col \<and>
               (\<forall>r. row < r \<and> r < 6 \<longrightarrow> \<not> emptyAt (board game) r col) \<and>
               map_of (activeGames st') gid = Some game' \<and>
               board game' = (board game)[nat row :=
                                (board game ! nat row)[nat col := Some (currentTurn game)]]"
    using mm rng e above look b'
    by (intro exI[of _ ?row] exI[of _ ?st'] exI[of _ evs] exI[of _ game'] conjI)
  moreover have "\<exists>r. 0 \<le> r \<and> r < 6 \<and> emptyAt (board game) r col" using rng e by blast
  ultimately show ?thesis by blast
qed

text \<open>
  The theorem at the first move of the example game: red drops into column 3 of the
  empty board and lands in row 5.
\<close>

theorem makeMove_drops_lowest_empty_witness:
  "map_of (activeGames demoPlaying) 3 = Some demoGame \<and>
   currentTurn demoGame = playerColorOf demoGame ''a'' \<and> winner demoGame = None \<and>
   (0::int) \<le> 3 \<and> (3::int) < 7 \<and>
   (\<exists>st' evs game'. makeMove demoPlaying ''a'' 3 3 = Some (st', evs) \<and>
      map_of (activeGames st') 3 = Some game' \<and>
      board game' = createEmptyBoard[5 := (createEmptyBoard ! 5)[3 := Some Red]])"
proof -
  have h: "currentTurn demoGame = playerColorOf demoGame ''a''" "winner demoGame = None"
    "(0::int) \<le> 3" "(3::int) < 7"
    by (simp_all add: demoGame_def playerColorOf_def)
  have e5: "emptyAt (board demoGame) 5 3"
    by (simp add: demoGame_def emptyAt_def createEmptyBoard_def row_of_def cell_of_def
          numeral_eq_Suc)
  then have ex: "\<exists>r. 0 \<le> r \<and> r < 6 \<and> emptyAt (board demoGame) r 3"
    by (intro exI[of _ 5]) simp
  note t = makeMove_drops_lowest_empty[OF demo_game h]
  from t[THEN conjunct1, THEN mp, OF ex]
  obtain row st' evs game' where mm: "makeMove demoPlaying ''a'' 3 3 = Some (st', evs)"
    and rng: "0 \<le> row" "row < 6"
    and above: "\<forall>r. row < r \<and> r < 6 \<longrightarrow> \<not> emptyAt (board demoGame) r 3"
    and look: "map_of (activeGames st') 3 = Some game'"
    and b: "board game' = (board demoGame)[nat row :=
              (board demoGame ! nat row)[nat 3 := Some (currentTurn demoGame)]]"
    by (elim exE conjE) (rule that)
  have "\<not> row < 5"
  proof
    assume "row < 5"
    then have "row < 5 \<and> (5::int) < 6" by simp
    with above[THEN spec, of 5] have "\<not> emptyAt (board demoGame) 5 3" by simp
    with e5 show False by simp
  qed
  with rng have "row = 5" by simp
  with b have b5: "board game' = createEmptyBoard[5 := (createEmptyBoard ! 5)[3 := Some Red]]"
    by (simp add: demoGame_def)
  have "\<exists>st' evs game'. makeMove demoPlaying ''a'' 3 3 = Some (st', evs) \<and>
      map_of (activeGames st') 3 = Some game' \<and>
      board game' = createEmptyBoard[5 := (createEmptyBoard ! 5)[3 := Some Red]]"
    using mm look b5 by (intro exI[of _ st'] exI[of _ evs] exI[of _ game'] conjI)
  with demo_game h show ?thesis by simp
qed



text \<open>
  Claim C4.  In a reachable state, let an accept, a decline, the timer or the
  disconnect of a party resolve a pending challenge.  Then, whatever inputs follow,
  no challenge and no timer exists under that id any more: accept, decline and the
  timer on that id leave the state unchanged and emit nothing, and a disconnect
  notifies only for challenges that are still pending.
\<close>

theorem challenge_resolved_once:
  assumes r: "reachable st" and c: "map_of (activeChallenges st) cid \<noteq> None"
    and res: "resolves st cid i" and st: "step st i = Some (st1, evs1)"
    and run: "run st1 ins = Some st2"
  shows "map_of (activeChallenges st2) cid = None \<and> challengeTimers st2 cid = None \<and>
         (\<forall>s f. acceptChallenge st2 s cid f = (st2, [])) \<and>
         (\<forall>s f. declineChallenge st2 s cid f = (st2, [])) \<and>
         challengeTimerFires st2 cid = (st2, []) \<and>
         (\<forall>x ts. map_of (activeChallenges (fst (disconnect st2 x ts))) cid = None \<and>
            length (filter (\<lambda>e. snd e = ChallengeTimeout) (snd (disconnect st2 x ts)))
              = (case map_of (onlineUsers st2) x of
                   None \<Rightarrow> 0
                 | Some user \<Rightarrow> length (filter (involves x) (activeChallenges st2))))"
proof -
  from c obtain ch where ch: "map_of (activeChallenges st) cid = Some ch" by auto
  from resolves_gone[OF reachable_challenge_inv[OF r] ch res st] have "gone st1 cid" .
  from gone_run[OF this run] have g2: "gone st2 cid" .
  have disc: "map_of (activeChallenges (fst (disconnect st2 x ts))) cid = None" for x ts
  proof -
    have "step st2 (Disconnect x ts) = Some (fst (disconnect st2 x ts), snd (disconnect st2 x ts))"
      by simp
    from gone_step[OF g2 this] show ?thesis by (simp add: gone_def)
  qed
  from g2 gone_noop[OF g2] disc disconnect_notes show ?thesis by (simp add: gone_def)
qed

text \<open>
  The theorem in the example run: after Bob's accept, a second accept, a decline
  and the timer of challenge 2 do nothing.
\<close>

theorem challenge_resolved_once_witness:
  "reachable demoPending \<and> map_of (activeChallenges demoPending) 2 \<noteq> None \<and>
   resolves demoPending 2 (AcceptChallenge ''b'' 2 ''a'') \<and>
   step demoPending (AcceptChallenge ''b'' 2 ''a'')
     = Some (demoPlaying, snd (acceptChallenge demoPending ''b'' 2 ''a'')) \<and>
   run demoPlaying [] = Some demoPlaying \<and>
   acceptChallenge demoPlaying ''b'' 2 ''a'' = (demoPlaying, []) \<and>
   declineChallenge demoPlaying ''b'' 2 ''a'' = (demoPlaying, []) \<and>
   challengeTimerFires demoPlaying 2 = (demoPlaying, [])"
proof -
  have c: "map_of (activeChallenges demoPending) 2 \<noteq> None" by (simp add: demoPending_eq)
  have r: "resolves demoPending 2 (AcceptChallenge ''b'' 2 ''a'')" by simp
  have s: "step demoPending (AcceptChallenge ''b'' 2 ''a'')
             = Some (demoPlaying, snd (acceptChallenge demoPending ''b'' 2 ''a''))"
    by (simp add: demoPlaying_def)
  have n: "run demoPlaying [] = Some demoPlaying" by simp
  note t = challenge_resolved_once[OF reachable_demoPending c r s n]
  note acc = t[THEN conjunct2, THEN conjunct2, THEN conjunct1, THEN spec, THEN spec]
  note dec = t[THEN conjunct2, THEN conjunct2, THEN conjunct2, THEN conjunct1,
               THEN spec, THEN spec]
  note tmr = t[THEN conjunct2, THEN conjunct2, THEN conjunct2, THEN conjunct2, THEN conjunct1]
  from reachable_demoPending c r s n acc dec tmr show ?thesis by (intro conjI)
qed



text \<open>
  Claim C10.  After a socket's \<open>joinLobby\<close>, and whatever inputs follow, another
  \<open>joinLobby\<close> from the same socket returns the state unchanged and emits nothing,
  whichever user id, user name and time it carries.
\<close>

theorem joinLobby_second_is_noop:
  assumes "run (fst (joinLobby st s u n ts)) ins = Some st'"
  shows "joinLobby st' s u' n' ts' = (st', [])"
proof -
  from hasJoined_run[OF joinLobby_sets_flag assms] have "s \<in> hasJoinedLobby st'" .
  then show ?thesis by (simp add: joinLobby_def)
qed

text \<open>
  The theorem in the example lobby: socket \<open>a\<close> joins a second time under another
  name.
\<close>

theorem joinLobby_second_is_noop_witness:
  "run (fst (joinLobby init ''a'' ''1'' ''alice'' ''t0'')) [JoinLobby ''b'' ''2'' ''bob'' ''t1'']
     = Some demoLobby \<and>
   joinLobby demoLobby ''a'' ''9'' ''mallory'' ''t9'' = (demoLobby, [])"
proof -
  have r: "run (fst (joinLobby init ''a'' ''1'' ''alice'' ''t0''))
             [JoinLobby ''b'' ''2'' ''bob'' ''t1''] = Some demoLobby"
    by (simp add: demoLobby_def case_prod_beta)
  from joinLobby_second_is_noop[OF r] r show ?thesis by (intro conjI)
qed

section \<open>Where the handlers depart from the specification\<close>

text \<open>
  Claim C5 says that only the target of a challenge can accept it and that a socket
  which is not a party to a game is ignored.  The handlers do not check this.  Socket
  \<open>c\<close>, which never joined and is a party to nothing, accepts Alice's challenge to
  Bob and the game is created; it then moves as yellow in that game, since
  \<open>makeMove\<close> takes every socket other than red's for yellow; and its forfeit deletes
  the game and tells Alice that Bob forfeited.  (\<open>joinGame\<close>, in contrast, does refuse
  a user who is neither red nor yellow.)
\<close>

theorem outsider_acts_as_party:
  "acceptChallenge demoPending ''c'' 2 ''a''
     = (demoPlaying, [(ToSocket ''c'', ChallengeAccepted 3),
                      (ToRoom (SocketRoom ''a''), ChallengeAccepted 3)]) \<and>
   makeMove demoRedMoved ''c'' 3 1
     = Some (demoPlaying\<lparr>activeGames :=
               [(3, demoGame\<lparr>board := replicate 5 (replicate 7 None)
                       @ [[Some Red, Some Yellow, None, None, None, None, None]]\<rparr>)]\<rparr>,
             [(ToRoom (GameRoom 3),
               gameStateOf (demoGame\<lparr>board := replicate 5 (replicate 7 None)
                       @ [[Some Red, Some Yellow, None, None, None, None, None]]\<rparr>))]) \<and>
   forfeitGame demoPlaying ''c'' 3
     = (demoPlaying\<lparr>activeGames := []\<rparr>,
        [(ToRoom (SocketRoom ''a''), OpponentForfeited ''bob'')])"
proof (intro conjI)
  show "acceptChallenge demoPending ''c'' 2 ''a''
     = (demoPlaying, [(ToSocket ''c'', ChallengeAccepted 3),
                      (ToRoom (SocketRoom ''a''), ChallengeAccepted 3)])"
    by (simp add: demoPlaying_eq demoPending_eq demoLobby_eq acceptChallenge_def Let_def
          demoGame_def eval_nat_numeral)
next
  let ?g = "demoGame\<lparr>board := placeToken createEmptyBoard 5 0 Red, currentTurn := Yellow\<rparr>"
  have look: "map_of (activeGames demoRedMoved) 3 = Some ?g" by (simp add: demoRedMoved_def)
  have g: "board ?g = replicate 5 (replicate 7 None)
                        @ [[Some Red, None, None, None, None, None, None]]"
    "currentTurn ?g = Yellow" "winner ?g = None" "playerColorOf ?g ''c'' = Yellow"
    by (simp_all add: demoGame_def playerColorOf_def place0)
  have up: "AList.update 3 v (activeGames demoRedMoved) = [(3, v)]" for v
    by (simp add: demoRedMoved_def)
  have st: "demoRedMoved\<lparr>activeGames := x\<rparr> = demoPlaying\<lparr>activeGames := x\<rparr>" for x
    by (simp add: demoRedMoved_def)
  have gm: "demoGame\<lparr>board := x, currentTurn := Red\<rparr> = demoGame\<lparr>board := x\<rparr>" for x
    by (simp add: demoGame_def)
  show "makeMove demoRedMoved ''c'' 3 1
     = Some (demoPlaying\<lparr>activeGames :=
               [(3, demoGame\<lparr>board := replicate 5 (replicate 7 None)
                       @ [[Some Red, Some Yellow, None, None, None, None, None]]\<rparr>)]\<rparr>,
             [(ToRoom (GameRoom 3),
               gameStateOf (demoGame\<lparr>board := replicate 5 (replicate 7 None)
                       @ [[Some Red, Some Yellow, None, None, None, None, None]]\<rparr>))])"
    unfolding makeMove_def look
    by (simp add: g find1 place1 cw1 full1 up st gm Let_def del: replicate_Suc)
next
  show "forfeitGame demoPlaying ''c'' 3
     = (demoPlaying\<lparr>activeGames := []\<rparr>,
        [(ToRoom (SocketRoom ''a''), OpponentForfeited ''bob'')])"
    by (simp add: forfeitGame_def demoPlaying_eq demoGame_def Let_def)
qed

text \<open>
  Claim C6 says that a challenge whose sender and target are the same user is
  dropped.  \<open>sendChallenge\<close> only checks that both sockets are in the presence
  registry: Alice challenging her own socket gets a pending challenge from user 1 to
  user 1, an armed timer and a \<open>challengeReceived\<close> event.  (The client refuses this
  with "You can't challenge yourself!" before it emits.)
\<close>

theorem sendChallenge_to_self:
  "sendChallenge demoLobby ''a'' ''a'' ''alice''
     = (demoLobby\<lparr>nextUuid := 3, challengeTimers := [2 \<mapsto> (''a'', ''a'')],
          activeChallenges :=
            [(2, \<lparr>challenge_id = 2, from_socket = ''a'', fromUsername = ''alice'',
                  fromUserId = ''1'', to_socket = ''a'', toUsername = ''alice'',
                  toUserId = ''1'', timeout = 2\<rparr>)]\<rparr>,
        [(ToRoom (SocketRoom ''a''), ChallengeReceived ''a'' ''alice'' ''a'' 2)])"
  by (simp add: demoLobby_eq sendChallenge_def Let_def eval_nat_numeral)

text \<open>
  Claim C9 says that a forfeit notifies only the opponent and that the forfeiter
  receives no event.  \<open>forfeitGame\<close> sends its one event to the room named by the
  socket id stored in the other seat, and nothing keeps that from reaching the
  forfeiter.  In the first state Bob's socket has sent \<open>joinGame\<close> with Alice's user
  id, which \<open>joinGame\<close> accepts from any socket, so both seats are bound to his
  socket: his forfeit is taken for red's, the notice "alice forfeited" goes to his
  own socket, and Alice's socket receives nothing.  In the second state Alice's
  socket has sent \<open>joinGame\<close> with Bob's socket id as game id, which joins the room
  before the game is looked up: her forfeit's notice to Bob reaches her socket too.
  (A game that a user started by challenging her own socket, see claim C6, has both
  seats on one socket as well.)  The rest of the claim holds, see
  \<open>forfeitGame_effect\<close>: the game is deleted in the same step and later moves on
  its id find nothing.
\<close>

theorem forfeiter_receives_notice:
  "reachable demoHijacked \<and>
   forfeitGame demoHijacked ''b'' 3
     = (demoHijacked\<lparr>activeGames := []\<rparr>,
        [(ToRoom (SocketRoom ''b''), OpponentForfeited ''alice'')]) \<and>
   delivered demoHijacked ''b'' (ToRoom (SocketRoom ''b''), OpponentForfeited ''alice'') \<and>
   \<not> delivered demoHijacked ''a'' (ToRoom (SocketRoom ''b''), OpponentForfeited ''alice'') \<and>
   reachable demoListening \<and>
   forfeitGame demoListening ''a'' 3
     = (demoListening\<lparr>activeGames := []\<rparr>,
        [(ToRoom (SocketRoom ''b''), OpponentForfeited ''alice'')]) \<and>
   delivered demoListening ''a'' (ToRoom (SocketRoom ''b''), OpponentForfeited ''alice'')"
proof (intro conjI)
  show "reachable demoHijacked" by (rule reachable_demoHijacked)
  show "reachable demoListening" by (rule reachable_demoListening)
  show "forfeitGame demoHijacked ''b'' 3
     = (demoHijacked\<lparr>activeGames := []\<rparr>,
        [(ToRoom (SocketRoom ''b''), OpponentForfeited ''alice'')])"
    by (simp add: forfeitGame_def demoHijacked_eq demoGame_def Let_def)
  show "delivered demoHijacked ''b'' (ToRoom (SocketRoom ''b''), OpponentForfeited ''alice'')"
    by (simp add: delivered_def)
  show "\<not> delivered demoHijacked ''a'' (ToRoom (SocketRoom ''b''), OpponentForfeited ''alice'')"
    by (simp add: delivered_def demoHijacked_eq demoPlaying_eq demoLobby_eq)
  show "forfeitGame demoListening ''a'' 3
     = (demoListening\<lparr>activeGames := []\<rparr>,
        [(ToRoom (SocketRoom ''b''), OpponentForfeited ''alice'')])"
    by (simp add: forfeitGame_def demoListening_eq demoPlaying_eq demoGame_def Let_def)
  show "delivered demoListening ''a'' (ToRoom (SocketRoom ''b''), OpponentForfeited ''alice'')"
    by (simp add: delivered_def demoListening_eq)
qed


end
